theory Spec2Isabelle
  imports
    Main
    "HOL-Library.Char_ord"
    "HOL-Library.List_Lexorder"
    "HOL-Library.Product_Lexorder"
    "HOL-Library.Sublist"
begin

section \<open>Strings, keys and dictionaries\<close>

text \<open>
  Relation aliases, column names and predicate texts are Python \<open>str\<close> values, modelled as
  \<^typ>\<open>string\<close>. Python compares strings code point by code point; on \<^typ>\<open>string\<close> this
  is the lexicographic order of \<open>List_Lexorder\<close> over the character order of \<open>Char_ord\<close>
  (texts are taken to be ASCII, one \<^typ>\<open>char\<close> per code point).

  A function that may raise or fail to return has an \<open>option\<close> result: \<open>None\<close> stands for
  "does not return normally".
\<close>

text \<open>\<open>sep.join(xs)\<close>\<close>

fun join_str :: "string \<Rightarrow> string list \<Rightarrow> string" where
  "join_str sep [] = []"
| "join_str sep [x] = x"
| "join_str sep (x # y # ys) = x @ sep @ join_str sep (y # ys)"

text \<open>\<open>'|||'.join(sorted(subset))\<close>, used for edge keys and for the enumerator's table.\<close>

definition canonical_key :: "string list \<Rightarrow> string" where
  "canonical_key ss = join_str ''|||'' (sort ss)"

text \<open>
  A Python \<open>dict\<close> keeps its keys in insertion order; it is an association list in which a
  key occurs once. \<open>dict_set\<close> is \<open>d[k] = v\<close>.
\<close>

fun dict_set :: "'k \<Rightarrow> 'v \<Rightarrow> ('k \<times> 'v) list \<Rightarrow> ('k \<times> 'v) list" where
  "dict_set k v [] = [(k, v)]"
| "dict_set k v ((k', v') # kvs) =
     (if k = k' then (k, v) # kvs else (k', v') # dict_set k v kvs)"

section \<open>Data structures (constants.py)\<close>

datatype JoinDetail =
  JoinDetail (jd_t1: string) (jd_t1_col: string) (jd_t2: string) (jd_t2_col: string)
    (jd_is_original: bool)

datatype TransitiveJoin =
  TransitiveJoin (tj_t1: string) (tj_t1_col: string) (tj_t2: string) (tj_t2_col: string)

datatype ConstantValue =
  ConstantValue (cv_table: string) (cv_column: string) (cv_value: string)

datatype ConstantEqualityJoin =
  ConstantEqualityJoin (cej_t1: string) (cej_t2: string) (cej_column: string)

datatype JoinCondition =
  JoinCondition (left_table: string) (left_column: string)
    (right_table: string) (right_column: string)

datatype JoinPredicate = JoinPredicate (jp_predicate: string) (jp_is_original: bool)

datatype NextTable = NextTable (nt_table: string) (nt_join_pred: "JoinPredicate option")

record PredicateSet =
  selections :: "string list"
  joins :: "string list"
  complex :: "string list"

text \<open>
  A Python \<open>set\<close> of aliases is represented by the sorted list of its distinct elements,
  so that two equal sets are equal lists. The order in which Python iterates over a set of
  strings is not fixed by the language (it follows the per-process string hash); wherever
  the source iterates over a set, the model iterates over \<open>set_iter h s\<close>, the elements of
  \<open>s\<close> ordered by an arbitrary ranking \<open>h\<close> of the strings, which is a parameter.
\<close>

definition pyset :: "string list \<Rightarrow> string list" where
  "pyset xs = sort (remdups xs)"

definition set_iter :: "(string \<Rightarrow> nat) \<Rightarrow> string list \<Rightarrow> string list" where
  "set_iter h s = sort_key h s"

record EnumerationPlan =
  plan_subset :: "string list"
  plan_left :: "string list option"
  plan_right :: "string list option"
  plan_sql :: string

section \<open>Join graph (join\_graph.py)\<close>

record JoinGraph =
  edges :: "string list"
  join_details :: "(string \<times> JoinDetail list) list"
  table_aliases :: "(string \<times> string) list"
  equivalence_classes :: "string list list"

definition empty_graph :: JoinGraph where
  "empty_graph = \<lparr>edges = [], join_details = [], table_aliases = [],
     equivalence_classes = []\<rparr>"

text \<open>The list object stored under an edge key (empty when the key is absent).\<close>

definition details_at :: "JoinGraph \<Rightarrow> string \<Rightarrow> JoinDetail list" where
  "details_at g k = (case map_of (join_details g) k of None \<Rightarrow> [] | Some ds \<Rightarrow> ds)"

definition all_details :: "JoinGraph \<Rightarrow> JoinDetail list" where
  "all_details g = concat (map snd (join_details g))"

text \<open>\<open>JoinGraph.add_join\<close>\<close>

definition add_join ::
  "JoinGraph \<Rightarrow> string \<Rightarrow> string \<Rightarrow> string \<Rightarrow> string \<Rightarrow> bool \<Rightarrow> JoinGraph" where
  "add_join g t1 t2 t1_col t2_col is_original =
     (let edge = canonical_key [t1, t2];
          g1 = g\<lparr>edges := List.insert edge (edges g)\<rparr>
      in if t1_col \<noteq> [] \<and> t2_col \<noteq> [] then
           (let table1 = (if t2 < t1 then t2 else t1);
                table2 = (if t2 < t1 then t1 else t2);
                detail = JoinDetail table1 (if table1 = t1 then t1_col else t2_col)
                           table2 (if table2 = t2 then t2_col else t1_col) is_original
            in g1\<lparr>join_details :=
                 dict_set edge (details_at g1 edge @ [detail]) (join_details g1)\<rparr>)
         else g1)"

text \<open>\<open>JoinGraph._try_form_transitive_join\<close>: the four cases, in the source's order.\<close>

definition try_form_transitive_join :: "JoinDetail \<Rightarrow> JoinDetail \<Rightarrow> TransitiveJoin option" where
  "try_form_transitive_join d1 d2 =
     (if jd_t2 d1 = jd_t1 d2 \<and> jd_t2_col d1 = jd_t1_col d2 then
        Some (TransitiveJoin (jd_t1 d1) (jd_t1_col d1) (jd_t2 d2) (jd_t2_col d2))
      else if jd_t2 d1 = jd_t2 d2 \<and> jd_t2_col d1 = jd_t2_col d2 then
        Some (TransitiveJoin (jd_t1 d1) (jd_t1_col d1) (jd_t1 d2) (jd_t1_col d2))
      else if jd_t1 d1 = jd_t1 d2 \<and> jd_t1_col d1 = jd_t1_col d2 then
        Some (TransitiveJoin (jd_t2 d1) (jd_t2_col d1) (jd_t2 d2) (jd_t2_col d2))
      else if jd_t1 d1 = jd_t2 d2 \<and> jd_t1_col d1 = jd_t2_col d2 then
        Some (TransitiveJoin (jd_t2 d1) (jd_t2_col d1) (jd_t1 d2) (jd_t1_col d2))
      else None)"

text \<open>\<open>JoinGraph._join_exists\<close>\<close>

definition join_exists :: "JoinGraph \<Rightarrow> TransitiveJoin \<Rightarrow> bool" where
  "join_exists g tr =
     list_ex (\<lambda>detail.
        (jd_t1 detail = tj_t1 tr \<and> jd_t1_col detail = tj_t1_col tr \<and>
         jd_t2 detail = tj_t2 tr \<and> jd_t2_col detail = tj_t2_col tr) \<or>
        (jd_t1 detail = tj_t2 tr \<and> jd_t1_col detail = tj_t2_col tr \<and>
         jd_t2 detail = tj_t1 tr \<and> jd_t2_col detail = tj_t1_col tr))
       (details_at g (canonical_key [tj_t1 tr, tj_t2 tr]))"

text \<open>
  The state of \<open>compute_transitive_closure\<close>: the graph, \<open>added_count\<close> and \<open>found_new\<close>.
  \<open>closure_step\<close> is the body of the innermost loop for one pair \<open>(d1, d2)\<close>.
\<close>

type_synonym closure_state = "JoinGraph \<times> nat \<times> bool"

definition closure_step :: "JoinDetail \<Rightarrow> JoinDetail \<Rightarrow> closure_state \<Rightarrow> closure_state" where
  "closure_step d1 d2 s =
     (case s of (g, added_count, found_new) \<Rightarrow>
        (case try_form_transitive_join d1 d2 of
           None \<Rightarrow> s
         | Some tr \<Rightarrow>
             if tj_t1 tr \<noteq> tj_t2 tr \<and> \<not> join_exists g tr then
               (add_join g (tj_t1 tr) (tj_t2 tr) (tj_t1_col tr) (tj_t2_col tr) False,
                Suc added_count, True)
             else s))"

text \<open>
  \<open>for d2 in details2\<close> and \<open>for d1 in details1\<close> run over the list objects held by the
  graph, and \<open>add_join\<close> appends to those objects in place: a Python list iterator reads the
  length anew at every step, so the loops are indexed and look the list up in the current
  graph. Nothing in the loop itself bounds the number of steps, hence the \<open>option\<close> result.
\<close>

partial_function (option) loop_d2 ::
  "JoinDetail \<Rightarrow> string \<Rightarrow> nat \<Rightarrow> closure_state \<Rightarrow> closure_state option" where
  "loop_d2 d1 k2 j s =
     (if j < length (details_at (fst s) k2)
      then loop_d2 d1 k2 (Suc j) (closure_step d1 (details_at (fst s) k2 ! j) s)
      else Some s)"

declare loop_d2.simps [code]

partial_function (option) loop_d1 ::
  "string \<Rightarrow> string \<Rightarrow> nat \<Rightarrow> closure_state \<Rightarrow> closure_state option" where
  "loop_d1 k1 k2 i s =
     (if i < length (details_at (fst s) k1)
      then (case loop_d2 (details_at (fst s) k1 ! i) k2 0 s of
              None \<Rightarrow> None
            | Some s' \<Rightarrow> loop_d1 k1 k2 (Suc i) s')
      else Some s)"

declare loop_d1.simps [code]

text \<open>\<open>for edge2_key, details2 in current_edges\<close>, over the keys of the snapshot.\<close>

fun loop_edge2 :: "string \<Rightarrow> string list \<Rightarrow> closure_state \<Rightarrow> closure_state option" where
  "loop_edge2 k1 [] s = Some s"
| "loop_edge2 k1 (k2 # ks) s =
     (if k1 = k2 then loop_edge2 k1 ks s
      else (case loop_d1 k1 k2 0 s of
              None \<Rightarrow> None
            | Some s' \<Rightarrow> loop_edge2 k1 ks s'))"

fun loop_edge1 :: "string list \<Rightarrow> string list \<Rightarrow> closure_state \<Rightarrow> closure_state option" where
  "loop_edge1 [] current s = Some s"
| "loop_edge1 (k1 # ks) current s =
     (case loop_edge2 k1 current s of
        None \<Rightarrow> None
      | Some s' \<Rightarrow> loop_edge1 ks current s')"

text \<open>One pass of \<open>for iteration in range(max_iterations)\<close>; \<open>found_new\<close> starts False.\<close>

definition closure_pass :: "JoinGraph \<Rightarrow> nat \<Rightarrow> closure_state option" where
  "closure_pass g added_count =
     (let current_edges = map fst (join_details g)
      in loop_edge1 current_edges current_edges (g, added_count, False))"

fun closure_iterate :: "nat \<Rightarrow> JoinGraph \<Rightarrow> nat \<Rightarrow> (JoinGraph \<times> nat) option" where
  "closure_iterate 0 g added_count = Some (g, added_count)"
| "closure_iterate (Suc n) g added_count =
     (case closure_pass g added_count of
        None \<Rightarrow> None
      | Some (g', added', found_new) \<Rightarrow>
          if \<not> found_new then Some (g', added') else closure_iterate n g' added')"

definition max_iterations :: nat where
  "max_iterations = 10"

text \<open>\<open>JoinGraph.compute_transitive_closure\<close>: the graph after it, and the count it returns.\<close>

definition compute_transitive_closure :: "JoinGraph \<Rightarrow> (JoinGraph \<times> nat) option" where
  "compute_transitive_closure g = closure_iterate max_iterations g 0"


subsection \<open>Equivalence classes\<close>

text \<open>
  The union-find of \<open>build_equivalence_classes\<close>: the dictionaries \<open>parent\<close> and \<open>rank\<close>.
  \<open>find\<close> recurses along the parent links, so it is a partial function; a dictionary
  lookup that would raise \<open>KeyError\<close> yields \<open>None\<close>.
\<close>

type_synonym uf_state = "(string \<times> string) list \<times> (string \<times> nat) list"

partial_function (option) uf_find :: "uf_state \<Rightarrow> string \<Rightarrow> (uf_state \<times> string) option" where
  "uf_find u x =
     (case map_of (fst u) x of
        None \<Rightarrow> Some ((dict_set x x (fst u), dict_set x 0 (snd u)), x)
      | Some p \<Rightarrow>
          if p \<noteq> x then
            Option.bind (uf_find u p)
              (\<lambda>res. Some ((dict_set x (snd res) (fst (fst res)), snd (fst res)), snd res))
          else Some (u, x))"

declare uf_find.simps [code]

definition uf_union :: "uf_state \<Rightarrow> string \<Rightarrow> string \<Rightarrow> uf_state option" where
  "uf_union u x y =
     (case uf_find u x of
        None \<Rightarrow> None
      | Some (u1, root_x) \<Rightarrow>
          (case uf_find u1 y of
             None \<Rightarrow> None
           | Some (u2, root_y) \<Rightarrow>
               if root_x = root_y then Some u2
               else (case (map_of (snd u2) root_x, map_of (snd u2) root_y) of
                       (Some rank_x, Some rank_y) \<Rightarrow>
                         if rank_x < rank_y then
                           Some (dict_set root_x root_y (fst u2), snd u2)
                         else if rank_x > rank_y then
                           Some (dict_set root_y root_x (fst u2), snd u2)
                         else
                           Some (dict_set root_y root_x (fst u2),
                                 dict_set root_x (rank_x + 1) (snd u2))
                     | _ \<Rightarrow> None)))"

text \<open>\<open>f"{detail.t1}.{detail.t1_col}"\<close>\<close>

definition qual_col :: "string \<Rightarrow> string \<Rightarrow> string" where
  "qual_col t c = t @ ''.'' @ c"

fun uf_union_all :: "JoinDetail list \<Rightarrow> uf_state \<Rightarrow> uf_state option" where
  "uf_union_all [] u = Some u"
| "uf_union_all (detail # ds) u =
     (case uf_union u (qual_col (jd_t1 detail) (jd_t1_col detail))
                      (qual_col (jd_t2 detail) (jd_t2_col detail)) of
        None \<Rightarrow> None
      | Some u' \<Rightarrow> uf_union_all ds u')"

text \<open>
  Grouping by root: \<open>ec_groups\<close> maps a root to the set of its members (a list without
  repetition).
\<close>

fun group_by_root ::
  "string list \<Rightarrow> uf_state \<Rightarrow> (string \<times> string list) list \<Rightarrow> (string \<times> string list) list option"
  where
  "group_by_root [] u ec_groups = Some ec_groups"
| "group_by_root (tc # tcs) u ec_groups =
     (case uf_find u tc of
        None \<Rightarrow> None
      | Some (u', root) \<Rightarrow>
          (let members = (case map_of ec_groups root of None \<Rightarrow> [] | Some ms \<Rightarrow> ms)
           in group_by_root tcs u' (dict_set root (List.insert tc members) ec_groups)))"

text \<open>\<open>JoinGraph.build_equivalence_classes\<close> (the graph after the call).\<close>

definition build_equivalence_classes :: "JoinGraph \<Rightarrow> JoinGraph option" where
  "build_equivalence_classes g =
     (case uf_union_all (all_details g) ([], []) of
        None \<Rightarrow> None
      | Some u \<Rightarrow>
          (case group_by_root (map fst (fst u)) u [] of
             None \<Rightarrow> None
           | Some ec_groups \<Rightarrow> Some (g\<lparr>equivalence_classes := map snd ec_groups\<rparr>)))"

subsection \<open>Connectivity\<close>

text \<open>\<open>JoinGraph.are_in_same_ec\<close>; \<open>tc.startswith(f"{t}.")\<close> is \<open>prefix (t @ ''.'') tc\<close>.\<close>

definition are_in_same_ec :: "JoinGraph \<Rightarrow> string \<Rightarrow> string \<Rightarrow> bool" where
  "are_in_same_ec g ta tb =
     list_ex (\<lambda>ec. list_ex (prefix (ta @ ''.'')) ec \<and> list_ex (prefix (tb @ ''.'')) ec)
       (equivalence_classes g)"

text \<open>
  The breadth-first traversal of \<open>is_connected\<close>. \<open>bfs_scan\<close> is \<open>for other in subset\<close> for
  one \<open>current\<close>; \<open>bfs_loop\<close> is \<open>while queue\<close>. \<open>visited\<close> is a set, kept as a list without
  repetition.
\<close>

fun bfs_scan ::
  "JoinGraph \<Rightarrow> string \<Rightarrow> string list \<Rightarrow> string list \<times> string list \<Rightarrow> string list \<times> string list"
  where
  "bfs_scan g current [] vq = vq"
| "bfs_scan g current (other # rest) vq =
     (if other \<notin> set (fst vq) \<and> are_in_same_ec g current other
      then bfs_scan g current rest (fst vq @ [other], snd vq @ [other])
      else bfs_scan g current rest vq)"

definition unvisited :: "string list \<Rightarrow> string list \<Rightarrow> nat" where
  "unvisited order visited = length (filter (\<lambda>x. x \<notin> set visited) order)"

lemma unvisited_mono:
  "set v \<subseteq> set v' \<Longrightarrow> unvisited order v' \<le> unvisited order v"
  unfolding unvisited_def
  by (induction order) (auto simp: le_Suc_eq)

lemma unvisited_less:
  "x \<in> set order \<Longrightarrow> x \<notin> set v \<Longrightarrow> unvisited order (v @ [x]) < unvisited order v"
proof (induction order)
  case Nil
  then show ?case by simp
next
  case (Cons a order)
  have le: "unvisited order (v @ [x]) \<le> unvisited order v"
    by (rule unvisited_mono) auto
  show ?case
  proof (cases "a = x")
    case True
    with Cons.prems le show ?thesis by (simp add: unvisited_def)
  next
    case False
    with Cons show ?thesis by (simp add: unvisited_def)
  qed
qed

lemma bfs_scan_progress:
  "set rest \<subseteq> set order \<Longrightarrow>
   unvisited order (fst (bfs_scan g current rest vq)) < unvisited order (fst vq) \<or>
   (unvisited order (fst (bfs_scan g current rest vq)) = unvisited order (fst vq) \<and>
    snd (bfs_scan g current rest vq) = snd vq)"
proof (induction rest arbitrary: vq)
  case Nil
  show ?case by simp
next
  case (Cons other rest)
  then have sub: "set rest \<subseteq> set order" and mem: "other \<in> set order"
    by auto
  show ?case
  proof (cases "other \<notin> set (fst vq) \<and> are_in_same_ec g current other")
    case False
    then show ?thesis using Cons.IH [OF sub, of vq] by auto
  next
    case True
    let ?vq' = "(fst vq @ [other], snd vq @ [other])"
    have strict: "unvisited order (fst ?vq') < unvisited order (fst vq)"
      using unvisited_less [OF mem, of "fst vq"] True by simp
    have step: "bfs_scan g current (other # rest) vq = bfs_scan g current rest ?vq'"
      using True by simp
    from Cons.IH [OF sub, of ?vq'] strict show ?thesis
      unfolding step by auto
  qed
qed

function bfs_loop :: "JoinGraph \<Rightarrow> string list \<Rightarrow> string list \<Rightarrow> string list \<Rightarrow> string list" where
  "bfs_loop g order visited [] = visited"
| "bfs_loop g order visited (current # queue) =
     bfs_loop g order (fst (bfs_scan g current order (visited, queue)))
                      (snd (bfs_scan g current order (visited, queue)))"
  by pat_completeness auto
termination
proof (relation "measures [\<lambda>(g, order, visited, queue). unvisited order visited,
                           \<lambda>(g, order, visited, queue). length queue]")
  show "wf (measures [\<lambda>(g, order, visited, queue). unvisited order visited,
                      \<lambda>(g, order, visited, queue). length queue])"
    by simp
next
  fix g :: JoinGraph and order visited :: "string list" and current :: string
    and queue :: "string list"
  from bfs_scan_progress [of order order g current "(visited, queue)"]
  show "((g, order, fst (bfs_scan g current order (visited, queue)),
          snd (bfs_scan g current order (visited, queue))),
         (g, order, visited, current # queue))
        \<in> measures [\<lambda>(g, order, visited, queue). unvisited order visited,
                     \<lambda>(g, order, visited, queue). length queue]"
    by (auto simp: case_prod_beta)
qed

text \<open>
  \<open>JoinGraph.is_connected\<close>. \<open>list(subset)[0]\<close> is the first element in iteration order
  (the list is not empty there, the subset having two elements or more).
\<close>

definition is_connected :: "(string \<Rightarrow> nat) \<Rightarrow> JoinGraph \<Rightarrow> string list \<Rightarrow> bool" where
  "is_connected h g s =
     (if length s \<le> 1 then True
      else (case set_iter h s of
              [] \<Rightarrow> False
            | start # _ \<Rightarrow> length (bfs_loop g (set_iter h s) [start] [start]) = length s))"

text \<open>\<open>JoinGraph.can_join\<close>\<close>

definition can_join :: "JoinGraph \<Rightarrow> string list \<Rightarrow> string list \<Rightarrow> bool" where
  "can_join g l r = list_ex (\<lambda>ta. list_ex (\<lambda>tb. are_in_same_ec g ta tb) r) l"


section \<open>Predicate classifier (predicates.py)\<close>

record PredicateClassifier =
  all_predicates :: "string list"
  predicate_tables :: "(string \<times> string list) list"
  cls_selections :: "string list"
  cls_joins :: "string list"
  cls_complex :: "string list"

definition empty_classifier :: PredicateClassifier where
  "empty_classifier = \<lparr>all_predicates = [], predicate_tables = [], cls_selections = [],
     cls_joins = [], cls_complex = []\<rparr>"

text \<open>\<open>PredicateClassifier.add_predicate\<close>; \<open>tables\<close> lists the elements of the set.\<close>

definition add_predicate ::
  "PredicateClassifier \<Rightarrow> string \<Rightarrow> string list \<Rightarrow> PredicateClassifier" where
  "add_predicate cl predicate tables =
     cl\<lparr>all_predicates := all_predicates cl @ [predicate],
        predicate_tables := dict_set predicate tables (predicate_tables cl)\<rparr>"

text \<open>\<open>len(tables)\<close> of a set given by a list of its elements.\<close>

definition set_len :: "string list \<Rightarrow> nat" where
  "set_len ts = length (remdups ts)"

text \<open>\<open>PredicateClassifier.get_predicates_for_subset\<close>: the loop over \<open>all_predicates\<close>.\<close>

fun get_predicates_loop ::
  "(string \<times> string list) list \<Rightarrow> string list \<Rightarrow> string list \<Rightarrow> PredicateSet \<Rightarrow> PredicateSet option"
  where
  "get_predicates_loop pt sub [] acc = Some acc"
| "get_predicates_loop pt sub (predicate # ps) acc =
     (case map_of pt predicate of
        None \<Rightarrow> None
      | Some pred_tables \<Rightarrow>
          if list_all (\<lambda>t. t \<in> set sub) pred_tables then
            (if set_len pred_tables = 1 then
               get_predicates_loop pt sub ps (acc\<lparr>selections := selections acc @ [predicate]\<rparr>)
             else if set_len pred_tables = 2 then
               get_predicates_loop pt sub ps (acc\<lparr>joins := joins acc @ [predicate]\<rparr>)
             else
               get_predicates_loop pt sub ps (acc\<lparr>complex := complex acc @ [predicate]\<rparr>))
          else get_predicates_loop pt sub ps acc)"

definition get_predicates_for_subset ::
  "PredicateClassifier \<Rightarrow> string list \<Rightarrow> PredicateSet option" where
  "get_predicates_for_subset cl sub =
     get_predicates_loop (predicate_tables cl) sub (all_predicates cl)
       \<lparr>selections = [], joins = [], complex = []\<rparr>"

text \<open>\<open>PredicateClassifier.classify_predicates\<close>\<close>

fun classify_loop :: "string list \<Rightarrow> PredicateClassifier \<Rightarrow> PredicateClassifier option" where
  "classify_loop [] cl = Some cl"
| "classify_loop (predicate # ps) cl =
     (case map_of (predicate_tables cl) predicate of
        None \<Rightarrow> None
      | Some tables \<Rightarrow>
          if set_len tables = 1 then
            classify_loop ps (cl\<lparr>cls_selections := cls_selections cl @ [predicate]\<rparr>)
          else if set_len tables = 2 then
            classify_loop ps (cl\<lparr>cls_joins := cls_joins cl @ [predicate]\<rparr>)
          else
            classify_loop ps (cl\<lparr>cls_complex := cls_complex cl @ [predicate]\<rparr>))"

definition classify_predicates :: "PredicateClassifier \<Rightarrow> PredicateClassifier option" where
  "classify_predicates cl = classify_loop (all_predicates cl) cl"

section \<open>Enumerator (enumerator.py)\<close>

text \<open>\<open>itertools.combinations(xs, k)\<close>, in the order it yields the tuples.\<close>

fun combinations :: "'a list \<Rightarrow> nat \<Rightarrow> 'a list list" where
  "combinations xs 0 = [[]]"
| "combinations [] (Suc k) = []"
| "combinations (x # xs) (Suc k) = map ((#) x) (combinations xs k) @ combinations xs (Suc k)"

record enum_state =
  dp_table :: "string list"
  all_plans :: "EnumerationPlan list"
  counts :: "(nat \<times> nat) list"

text \<open>\<open>PostgreSQLJoinEnumerator._add_subset\<close>\<close>

definition add_subset ::
  "enum_state \<Rightarrow> string list \<Rightarrow> string list option \<Rightarrow> string list option \<Rightarrow> enum_state" where
  "add_subset st s l r =
     st\<lparr>dp_table := List.insert (canonical_key s) (dp_table st),
        all_plans := all_plans st @
          [\<lparr>plan_subset = s, plan_left = l, plan_right = r, plan_sql = []\<rparr>]\<rparr>"

text \<open>
  The candidate splits of \<open>_find_valid_decomposition\<close>, in the order the two nested loops
  visit them, and the first one that passes both tests.
\<close>

definition decomposition_candidates :: "string list \<Rightarrow> (string list \<times> string list) list" where
  "decomposition_candidates s =
     concat (map (\<lambda>left_size.
        map (\<lambda>left_tuple. (pyset left_tuple, filter (\<lambda>x. x \<notin> set (pyset left_tuple)) s))
          (combinations (sort s) left_size))
       [1 ..< length s])"

definition find_valid_decomposition ::
  "JoinGraph \<Rightarrow> string list \<Rightarrow> string list \<Rightarrow> (string list \<times> string list) option" where
  "find_valid_decomposition g dp s =
     List.find (\<lambda>lr. canonical_key (fst lr) \<in> set dp \<and> canonical_key (snd lr) \<in> set dp \<and>
                      can_join g (fst lr) (snd lr))
       (decomposition_candidates s)"

text \<open>
  The body of the loop of \<open>_enumerate_level\<close> for one tuple; the state carries the
  enumerator and the three counters \<open>(checked, added, skipped)\<close>.
\<close>

type_synonym level_state = "enum_state \<times> nat \<times> nat \<times> nat"

definition enumerate_candidate ::
  "(string \<Rightarrow> nat) \<Rightarrow> JoinGraph \<Rightarrow> nat \<Rightarrow> level_state \<Rightarrow> string list \<Rightarrow> level_state" where
  "enumerate_candidate h g level ls subset_tuple =
     (case ls of (st, checked, added, skipped) \<Rightarrow>
        (let s = pyset subset_tuple in
         if \<not> is_connected h g s then (st, checked + 1, added, skipped + 1)
         else if level = 1 then (add_subset st s None None, checked + 1, added + 1, skipped)
         else (case find_valid_decomposition g (dp_table st) s of
                 Some decomp \<Rightarrow>
                   (add_subset st s (Some (fst decomp)) (Some (snd decomp)),
                    checked + 1, added + 1, skipped)
               | None \<Rightarrow> (st, checked + 1, added, skipped + 1))))"

definition enumerate_level ::
  "(string \<Rightarrow> nat) \<Rightarrow> JoinGraph \<Rightarrow> nat \<Rightarrow> string list \<Rightarrow> enum_state \<Rightarrow> level_state" where
  "enumerate_level h g level tables st =
     foldl (enumerate_candidate h g level) (st, 0, 0, 0) (combinations tables level)"

text \<open>\<open>for level in range(1, max_level + 1)\<close>, over the list of levels.\<close>

fun enumerate_levels ::
  "(string \<Rightarrow> nat) \<Rightarrow> JoinGraph \<Rightarrow> string list \<Rightarrow> nat list \<Rightarrow> enum_state \<Rightarrow> enum_state" where
  "enumerate_levels h g tables [] st = st"
| "enumerate_levels h g tables (level # levels) st =
     (case enumerate_level h g level tables st of
        (st', checked, added, skipped) \<Rightarrow>
          enumerate_levels h g tables levels (st'\<lparr>counts := dict_set level added (counts st')\<rparr>))"

text \<open>\<open>range(1, n + 1)\<close> for a Python integer \<open>n\<close>.\<close>

definition level_range :: "int \<Rightarrow> nat list" where
  "level_range n = map nat [1 .. n]"

text \<open>\<open>PostgreSQLJoinEnumerator.enumerate_subsets\<close> (default \<open>max_level = 20\<close>).\<close>

definition enumerate_subsets ::
  "(string \<Rightarrow> nat) \<Rightarrow> JoinGraph \<Rightarrow> string list \<Rightarrow> int \<Rightarrow> enum_state" where
  "enumerate_subsets h g tables max_level =
     (let tables' = sort tables;
          num_tables = int (length tables');
          max_level' = min max_level num_tables
      in enumerate_levels h g tables' (level_range max_level')
           \<lparr>dp_table = [], all_plans = [], counts = []\<rparr>)"


section \<open>Subquery generator (sql\_generator.py)\<close>

text \<open>\<open>SubqueryGenerator._render_table\<close>; \<open>aliases\<close> is the alias-to-base dictionary.\<close>

definition render_table :: "(string \<times> string) list \<Rightarrow> string \<Rightarrow> string" where
  "render_table aliases alias =
     (let base_name = (case map_of aliases alias of None \<Rightarrow> alias | Some b \<Rightarrow> b)
      in if base_name \<noteq> alias then base_name @ '' '' @ alias else base_name)"

text \<open>\<open>f"{detail.t1}.{detail.t1_col} = {detail.t2}.{detail.t2_col}"\<close>\<close>

definition detail_predicate :: "JoinDetail \<Rightarrow> string" where
  "detail_predicate detail =
     jd_t1 detail @ ''.'' @ jd_t1_col detail @ '' = '' @ jd_t2 detail @ ''.'' @ jd_t2_col detail"

text \<open>
  \<open>SubqueryGenerator._find_join_predicates\<close>: the predicates of the stored details of every
  pair, then the stable sort on the key \<open>(not p.is_original, p.predicate)\<close>.
\<close>

definition find_join_predicates ::
  "JoinGraph \<Rightarrow> string list \<Rightarrow> string list \<Rightarrow> JoinPredicate list" where
  "find_join_predicates g left_tables right_tables =
     sort_key (\<lambda>p. (\<not> jp_is_original p, jp_predicate p))
       (concat (map (\<lambda>l. concat (map (\<lambda>r.
          map (\<lambda>detail. JoinPredicate (detail_predicate detail) (jd_is_original detail))
            (details_at g (canonical_key [l, r])))
          right_tables)) left_tables))"

text \<open>
  \<open>SubqueryGenerator._find_next_table_for_join_tree\<close>. Each of the two loop nests returns
  at the first hit, that is the head of the hits listed in loop order: \<open>table\<close> over
  \<open>sorted(remaining_tables)\<close>, \<open>added\<close> over the set \<open>added_tables\<close> in its iteration order.
\<close>

definition original_hits ::
  "(string \<Rightarrow> nat) \<Rightarrow> JoinGraph \<Rightarrow> string list \<Rightarrow> string list \<Rightarrow> NextTable list" where
  "original_hits h g added_tables remaining_tables =
     concat (map (\<lambda>table. concat (map (\<lambda>added.
        map (\<lambda>pred. NextTable table (Some pred))
          (filter jp_is_original (find_join_predicates g [added] [table])))
        (set_iter h added_tables))) (sort remaining_tables))"

definition fallback_hits ::
  "(string \<Rightarrow> nat) \<Rightarrow> JoinGraph \<Rightarrow> string list \<Rightarrow> string list \<Rightarrow> NextTable list" where
  "fallback_hits h g added_tables remaining_tables =
     concat (map (\<lambda>table. concat (map (\<lambda>added.
        (case find_join_predicates g [added] [table] of
           [] \<Rightarrow> []
         | pred # _ \<Rightarrow> [NextTable table (Some pred)]))
        (set_iter h added_tables))) (sort remaining_tables))"

definition find_next_table_for_join_tree ::
  "(string \<Rightarrow> nat) \<Rightarrow> JoinGraph \<Rightarrow> string list \<Rightarrow> string list \<Rightarrow> NextTable option" where
  "find_next_table_for_join_tree h g added_tables remaining_tables =
     (case original_hits h g added_tables remaining_tables of
        nt # _ \<Rightarrow> Some nt
      | [] \<Rightarrow>
          (case fallback_hits h g added_tables remaining_tables of
             nt # _ \<Rightarrow> Some nt
           | [] \<Rightarrow> None))"

lemma original_hits_table:
  "nt \<in> set (original_hits h g added_tables remaining_tables) \<Longrightarrow>
   nt_table nt \<in> set remaining_tables"
  by (auto simp: original_hits_def)

lemma fallback_hits_table:
  "nt \<in> set (fallback_hits h g added_tables remaining_tables) \<Longrightarrow>
   nt_table nt \<in> set remaining_tables"
  by (auto simp: fallback_hits_def split: list.splits)

lemma find_next_table_in_remaining:
  "find_next_table_for_join_tree h g added_tables remaining_tables = Some nt \<Longrightarrow>
   nt_table nt \<in> set remaining_tables"
proof -
  assume a: "find_next_table_for_join_tree h g added_tables remaining_tables = Some nt"
  have "nt \<in> set (original_hits h g added_tables remaining_tables) \<or>
        nt \<in> set (fallback_hits h g added_tables remaining_tables)"
    using a unfolding find_next_table_for_join_tree_def
    by (auto split: list.splits)
  then show ?thesis
    using original_hits_table fallback_hits_table by blast
qed

text \<open>
  The state of the loop \<open>while remaining_tables\<close> of \<open>_generate_join_query\<close>.
\<close>

record join_tree =
  from_clause :: string
  added_tables :: "string list"
  remaining_tables :: "string list"
  used_join_predicates :: "string list"

definition newline :: string where
  "newline = [CHR 0x0A]"

text \<open>One round of the loop, for the table the search returned.\<close>

definition attach_table :: "(string \<times> string) list \<Rightarrow> NextTable \<Rightarrow> join_tree \<Rightarrow> join_tree" where
  "attach_table aliases next_info jt =
     (let table = nt_table next_info;
          fc = from_clause jt @ newline @ ''JOIN '' @ render_table aliases table
      in (case nt_join_pred next_info of
            Some join_pred \<Rightarrow>
              jt\<lparr>from_clause := fc @ '' ON '' @ jp_predicate join_pred,
                 used_join_predicates :=
                   List.insert (jp_predicate join_pred) (used_join_predicates jt),
                 added_tables := pyset (table # added_tables jt),
                 remaining_tables := removeAll table (remaining_tables jt)\<rparr>
          | None \<Rightarrow>
              jt\<lparr>from_clause := fc,
                 added_tables := pyset (table # added_tables jt),
                 remaining_tables := removeAll table (remaining_tables jt)\<rparr>))"

lemma attach_table_remaining:
  "remaining_tables (attach_table aliases next_info jt) =
   removeAll (nt_table next_info) (remaining_tables jt)"
  by (simp add: attach_table_def Let_def split: option.splits)

function join_loop ::
  "(string \<Rightarrow> nat) \<Rightarrow> JoinGraph \<Rightarrow> (string \<times> string) list \<Rightarrow> join_tree \<Rightarrow> join_tree" where
  "join_loop h g aliases jt =
     (if remaining_tables jt = [] then jt
      else (case find_next_table_for_join_tree h g (added_tables jt) (remaining_tables jt) of
              None \<Rightarrow> jt
            | Some next_info \<Rightarrow> join_loop h g aliases (attach_table aliases next_info jt)))"
  by pat_completeness auto
termination
proof (relation "measure (\<lambda>(h, g, aliases, jt). length (remaining_tables jt))")
  show "wf (measure (\<lambda>(h, g, aliases, jt). length (remaining_tables jt)))"
    by simp
next
  fix h :: "string \<Rightarrow> nat" and g :: JoinGraph and aliases :: "(string \<times> string) list"
    and jt :: join_tree and next_info :: NextTable
  assume "find_next_table_for_join_tree h g (added_tables jt) (remaining_tables jt)
            = Some next_info"
  then have "nt_table next_info \<in> set (remaining_tables jt)"
    by (rule find_next_table_in_remaining)
  then have "length (removeAll (nt_table next_info) (remaining_tables jt))
               < length (remaining_tables jt)"
    by (rule length_removeAll_less)
  then show "((h, g, aliases, attach_table aliases next_info jt), (h, g, aliases, jt))
               \<in> measure (\<lambda>(h, g, aliases, jt). length (remaining_tables jt))"
    by (simp add: attach_table_remaining)
qed

text \<open>\<open>' AND '.join(xs)\<close>\<close>

definition join_and :: "string list \<Rightarrow> string" where
  "join_and xs = join_str '' AND '' xs"

text \<open>
  The list \<open>all_predicates\<close> that \<open>_build_where_clause\<close> collects, and the clause itself.
\<close>

definition where_predicates :: "PredicateSet \<Rightarrow> string list \<Rightarrow> string list" where
  "where_predicates preds used =
     selections preds @ filter (\<lambda>join_pred. join_pred \<notin> set used) (joins preds)
       @ complex preds"

definition build_where_clause ::
  "PredicateClassifier \<Rightarrow> string list \<Rightarrow> string list \<Rightarrow> string option" where
  "build_where_clause cl sub used =
     (case get_predicates_for_subset cl sub of
        None \<Rightarrow> None
      | Some preds \<Rightarrow>
          (let all_preds = where_predicates preds used
           in if all_preds \<noteq> [] then Some (join_and all_preds) else Some []))"

text \<open>\<open>SubqueryGenerator._generate_base_table_query\<close>\<close>

definition generate_base_table_query ::
  "(string \<times> string) list \<Rightarrow> PredicateClassifier \<Rightarrow> string \<Rightarrow> string option" where
  "generate_base_table_query aliases cl table =
     (case get_predicates_for_subset cl [table] of
        None \<Rightarrow> None
      | Some preds \<Rightarrow>
          (let table_clause = render_table aliases table
           in if selections preds \<noteq> [] then
                Some (''SELECT COUNT(*) FROM '' @ table_clause @ '' WHERE ''
                        @ join_and (selections preds) @ '';'')
              else Some (''SELECT COUNT(*) FROM '' @ table_clause @ '';'')))"

text \<open>
  The join tree \<open>_generate_join_query\<close> builds for a subset: seeded with the first alias of
  \<open>sorted(subset)\<close> (\<open>IndexError\<close> on the empty subset).
\<close>

definition build_join_tree ::
  "(string \<Rightarrow> nat) \<Rightarrow> JoinGraph \<Rightarrow> (string \<times> string) list \<Rightarrow> string list \<Rightarrow> join_tree option"
  where
  "build_join_tree h g aliases s =
     (case sort s of
        [] \<Rightarrow> None
      | first # rest \<Rightarrow>
          Some (join_loop h g aliases
                  \<lparr>from_clause = render_table aliases first, added_tables = [first],
                   remaining_tables = pyset rest, used_join_predicates = []\<rparr>))"

text \<open>\<open>SubqueryGenerator._generate_join_query\<close>; \<open>left\<close> and \<open>right\<close> are not read.\<close>

definition generate_join_query ::
  "(string \<Rightarrow> nat) \<Rightarrow> (string \<times> string) list \<Rightarrow> PredicateClassifier \<Rightarrow> JoinGraph \<Rightarrow>
   string list \<Rightarrow> string list option \<Rightarrow> string list option \<Rightarrow> string option" where
  "generate_join_query h aliases cl g s l r =
     (case build_join_tree h g aliases s of
        None \<Rightarrow> None
      | Some jt \<Rightarrow>
          (case build_where_clause cl (sort s) (used_join_predicates jt) of
             None \<Rightarrow> None
           | Some where_clause \<Rightarrow>
               if where_clause \<noteq> [] then
                 Some (''SELECT * FROM '' @ from_clause jt @ newline @ ''WHERE ''
                         @ where_clause @ '';'')
               else Some (''SELECT * FROM '' @ from_clause jt @ '';'')))"

text \<open>\<open>SubqueryGenerator.generate_subquery\<close>\<close>

definition generate_subquery ::
  "(string \<Rightarrow> nat) \<Rightarrow> (string \<times> string) list \<Rightarrow> PredicateClassifier \<Rightarrow> JoinGraph \<Rightarrow>
   string list \<Rightarrow> string list option \<Rightarrow> string list option \<Rightarrow> string option" where
  "generate_subquery h aliases cl g s l r =
     (case s of
        [table] \<Rightarrow> generate_base_table_query aliases cl table
      | _ \<Rightarrow> generate_join_query h aliases cl g s l r)"


section \<open>Regular expressions of parser.py\<close>

text \<open>
  The fragment of Python's \<open>re\<close> that the patterns of \<open>parser.py\<close> use, with its
  backtracking order: a pattern is a sequence of items; a repetition of a character class
  tries its counts from the longest (greedy) or from the shortest (lazy); an alternation
  tries its left branch, with all that follows, before its right branch.
\<close>

datatype rx =
    Lit string
  | One "char \<Rightarrow> bool"
  | Rep "char \<Rightarrow> bool" nat bool
  | Open nat
  | Close nat
  | Alt "rx list" "rx list"
  | Bol
  | Eol

text \<open>ASCII classes: \<open>\w\<close>, \<open>\s\<close> (what \<open>str.isspace\<close> accepts), \<open>.\<close>, and lower-casing.\<close>

definition is_word :: "char \<Rightarrow> bool" where
  "is_word c = ((CHR ''a'' \<le> c \<and> c \<le> CHR ''z'') \<or> (CHR ''A'' \<le> c \<and> c \<le> CHR ''Z'') \<or>
     (CHR ''0'' \<le> c \<and> c \<le> CHR ''9'') \<or> c = CHR ''_'')"

definition is_space :: "char \<Rightarrow> bool" where
  "is_space c = ((CHR 0x09 \<le> c \<and> c \<le> CHR 0x0D) \<or> (CHR 0x1C \<le> c \<and> c \<le> CHR 0x20))"

definition is_dot :: "char \<Rightarrow> bool" where
  "is_dot c = (c \<noteq> CHR 0x0A)"

definition is_quote :: "char \<Rightarrow> bool" where
  "is_quote c = (c = CHR 0x27 \<or> c = CHR 0x22)"

definition lower :: "char \<Rightarrow> char" where
  "lower c = (if CHR ''A'' \<le> c \<and> c \<le> CHR ''Z'' then char_of (of_char c + (32::nat)) else c)"

text \<open>The first result in a list of attempts.\<close>

fun first_some :: "'a option list \<Rightarrow> 'a option" where
  "first_some [] = None"
| "first_some (None # xs) = first_some xs"
| "first_some (Some x # xs) = Some x"

text \<open>
  \<open>rx_match ic subj rs pos opens spans\<close> matches the items \<open>rs\<close> at position \<open>pos\<close> of
  \<open>subj\<close> and returns the end position with the spans \<open>(group, start, end)\<close> of the groups;
  \<open>ic\<close> is \<open>re.IGNORECASE\<close>.
\<close>

function rx_match ::
  "bool \<Rightarrow> string \<Rightarrow> rx list \<Rightarrow> nat \<Rightarrow> (nat \<times> nat) list \<Rightarrow> (nat \<times> nat \<times> nat) list \<Rightarrow>
   (nat \<times> (nat \<times> nat \<times> nat) list) option" where
  "rx_match ic subj [] pos opens spans = Some (pos, spans)"
| "rx_match ic subj (Lit w # rs) pos opens spans =
     (let cand = take (length w) (drop pos subj)
      in if (if ic then map lower cand = map lower w else cand = w)
         then rx_match ic subj rs (pos + length w) opens spans
         else None)"
| "rx_match ic subj (One P # rs) pos opens spans =
     (if pos < length subj \<and> P (subj ! pos)
      then rx_match ic subj rs (Suc pos) opens spans
      else None)"
| "rx_match ic subj (Rep P n greedy # rs) pos opens spans =
     (let avail = length (takeWhile P (drop pos subj));
          ks = (if greedy then rev [n ..< Suc avail] else [n ..< Suc avail])
      in first_some (map (\<lambda>k. rx_match ic subj rs (pos + k) opens spans) ks))"
| "rx_match ic subj (Open i # rs) pos opens spans =
     rx_match ic subj rs pos ((i, pos) # opens) spans"
| "rx_match ic subj (Close i # rs) pos opens spans =
     (case map_of opens i of
        None \<Rightarrow> None
      | Some start \<Rightarrow> rx_match ic subj rs pos opens ((i, start, pos) # spans))"
| "rx_match ic subj (Alt a b # rs) pos opens spans =
     (case rx_match ic subj (a @ rs) pos opens spans of
        Some res \<Rightarrow> Some res
      | None \<Rightarrow> rx_match ic subj (b @ rs) pos opens spans)"
| "rx_match ic subj (Bol # rs) pos opens spans =
     (if pos = 0 then rx_match ic subj rs pos opens spans else None)"
| "rx_match ic subj (Eol # rs) pos opens spans =
     (if drop pos subj = [] \<or> drop pos subj = [CHR 0x0A]
      then rx_match ic subj rs pos opens spans
      else None)"
  by pat_completeness auto
termination
  by (relation "measure (\<lambda>(ic, subj, rs, pos, opens, spans). size_list size rs)") auto

text \<open>\<open>re.search\<close>: the first start position with a match; \<open>m.group(i)\<close>.\<close>

definition rx_search ::
  "bool \<Rightarrow> rx list \<Rightarrow> string \<Rightarrow> (nat \<times> (nat \<times> nat \<times> nat) list) option" where
  "rx_search ic rs subj =
     first_some (map (\<lambda>start. rx_match ic subj rs start [] []) [0 ..< Suc (length subj)])"

definition rx_group :: "string \<Rightarrow> (nat \<times> nat \<times> nat) list \<Rightarrow> nat \<Rightarrow> string" where
  "rx_group subj spans i =
     (case map_of spans i of
        None \<Rightarrow> []
      | Some (start, end) \<Rightarrow> take (end - start) (drop start subj))"

text \<open>
  \<open>re.sub(pattern, '', subj)\<close>: every match, found from left to right, is deleted. (The
  two patterns it is used with match no empty string.)
\<close>

function rx_delete_all :: "rx list \<Rightarrow> string \<Rightarrow> nat \<Rightarrow> string" where
  "rx_delete_all rs subj pos =
     (if pos \<ge> length subj then []
      else (case rx_match False subj rs pos [] [] of
              None \<Rightarrow> subj ! pos # rx_delete_all rs subj (Suc pos)
            | Some (e, spans) \<Rightarrow>
                if e > pos then rx_delete_all rs subj e
                else subj ! pos # rx_delete_all rs subj (Suc pos)))"
  by pat_completeness auto
termination
  by (relation "measure (\<lambda>(rs, subj, pos). length subj - pos)") auto

text \<open>\<open>str.strip()\<close>\<close>

definition strip :: "string \<Rightarrow> string" where
  "strip x = rev (dropWhile is_space (rev (dropWhile is_space x)))"

section \<open>Constant-equality detection (parser.py)\<close>

text \<open>\<open>r"^['\"]|['\"]$"\<close> and \<open>r'::\w+$'\<close>\<close>

definition rx_outer_quote :: "rx list" where
  "rx_outer_quote = [Alt [Bol, One is_quote] [One is_quote, Eol]]"

definition rx_type_cast :: "rx list" where
  "rx_type_cast = [Lit ''::'', Rep is_word 1 True, Eol]"

text \<open>\<open>_normalize_value\<close>\<close>

definition normalize_value :: "string \<Rightarrow> string" where
  "normalize_value raw_value =
     (let normalized = strip raw_value;
          normalized = rx_delete_all rx_outer_quote normalized 0;
          normalized = rx_delete_all rx_type_cast normalized 0
      in strip normalized)"

text \<open>
  \<open>r'(\w+)\.(\w+)\s*=\s*(.+?)(?:\s+(?:AND|OR)|$)'\<close> and
  \<open>r'(\w+)\.(\w+)\s+IN\s*\(([^)]+)\)'\<close>
\<close>

definition rx_eq :: "rx list" where
  "rx_eq = [Open 1, Rep is_word 1 True, Close 1, Lit ''.'', Open 2, Rep is_word 1 True, Close 2,
            Rep is_space 0 True, Lit ''='', Rep is_space 0 True,
            Open 3, Rep is_dot 1 False, Close 3,
            Alt [Rep is_space 1 True, Alt [Lit ''AND''] [Lit ''OR'']] [Eol]]"

definition rx_in :: "rx list" where
  "rx_in = [Open 1, Rep is_word 1 True, Close 1, Lit ''.'', Open 2, Rep is_word 1 True, Close 2,
            Rep is_space 1 True, Lit ''IN'', Rep is_space 0 True, Lit ''('',
            Open 3, Rep (\<lambda>c. c \<noteq> CHR '')'') 1 True, Close 3, Lit '')'']"

text \<open>\<open>value_list.split(',')\<close>\<close>

fun split_comma :: "string \<Rightarrow> string list" where
  "split_comma [] = [[]]"
| "split_comma (c # cs) =
     (if c = CHR '','' then [] # split_comma cs
      else (case split_comma cs of
              [] \<Rightarrow> [[c]]
            | w # ws \<Rightarrow> (c # w) # ws))"

text \<open>\<open>_extract_single_constant_value\<close>\<close>

definition extract_single_constant_value :: "string \<Rightarrow> ConstantValue option" where
  "extract_single_constant_value predicate =
     (case rx_search True rx_eq predicate of
        Some (e, spans) \<Rightarrow>
          Some (ConstantValue (rx_group predicate spans 1) (rx_group predicate spans 2)
                  (normalize_value (rx_group predicate spans 3)))
      | None \<Rightarrow>
          (case rx_search True rx_in predicate of
             Some (e, spans) \<Rightarrow>
               (let vals = map strip (split_comma (rx_group predicate spans 3))
                in (case vals of
                      [v] \<Rightarrow>
                        Some (ConstantValue (rx_group predicate spans 1)
                                (rx_group predicate spans 2) (normalize_value v))
                    | _ \<Rightarrow> None))
           | None \<Rightarrow> None))"

text \<open>
  The first loop of \<open>_detect_constant_equality_joins\<close>: \<open>constant_groups\<close> maps the key
  \<open>f"{column}:{value}"\<close> to the facts found, in the order found.
\<close>

definition group_key :: "ConstantValue \<Rightarrow> string" where
  "group_key cv = cv_column cv @ '':'' @ cv_value cv"

fun group_selections ::
  "string list \<Rightarrow> (string \<times> ConstantValue list) list \<Rightarrow> (string \<times> ConstantValue list) list"
  where
  "group_selections [] groups = groups"
| "group_selections (pred # preds) groups =
     (case extract_single_constant_value pred of
        None \<Rightarrow> group_selections preds groups
      | Some const_val \<Rightarrow>
          group_selections preds
            (dict_set (group_key const_val)
               ((case map_of groups (group_key const_val) of None \<Rightarrow> [] | Some cvs \<Rightarrow> cvs)
                  @ [const_val])
               groups))"

fun group_tables ::
  "PredicateClassifier \<Rightarrow> string list \<Rightarrow> (string \<times> ConstantValue list) list \<Rightarrow>
   (string \<times> ConstantValue list) list option" where
  "group_tables cl [] groups = Some groups"
| "group_tables cl (table # tables) groups =
     (case get_predicates_for_subset cl [table] of
        None \<Rightarrow> None
      | Some predicates \<Rightarrow>
          group_tables cl tables (group_selections (selections predicates) groups))"

text \<open>The pairs \<open>(group[i], group[j])\<close> with \<open>i < j\<close>, in loop order.\<close>

fun index_pairs :: "'a list \<Rightarrow> ('a \<times> 'a) list" where
  "index_pairs [] = []"
| "index_pairs (x # xs) = map (Pair x) xs @ index_pairs xs"

definition group_joins :: "ConstantValue list \<Rightarrow> ConstantEqualityJoin list" where
  "group_joins grp =
     (if length grp \<ge> 2 then
        map (\<lambda>(gi, gj). ConstantEqualityJoin (cv_table gi) (cv_table gj) (cv_column gi))
          (index_pairs grp)
      else [])"

text \<open>\<open>_detect_constant_equality_joins\<close>\<close>

definition detect_constant_equality_joins ::
  "PredicateClassifier \<Rightarrow> string list \<Rightarrow> ConstantEqualityJoin list option" where
  "detect_constant_equality_joins cl tables =
     (case group_tables cl tables [] of
        None \<Rightarrow> None
      | Some constant_groups \<Rightarrow> Some (concat (map (\<lambda>(key, grp). group_joins grp) constant_groups)))"


section \<open>The build phase (parser.py, parse\_sql)\<close>

text \<open>
  \<open>parse_sql\<close> after the calls into the SQL parsing library: the table list, the alias
  dictionary, the join conditions and the \<open>(text, tables)\<close> pairs of the filter are what
  \<open>_extract_tables\<close>, \<open>_extract_joins_from_ast\<close> and \<open>_extract_predicates_from_where\<close>
  returned.
\<close>

record ParsedSQL =
  ps_tables :: "string list"
  ps_aliases :: "(string \<times> string) list"
  ps_join_graph :: JoinGraph
  ps_classifier :: PredicateClassifier

definition add_join_conditions :: "JoinCondition list \<Rightarrow> JoinGraph \<Rightarrow> JoinGraph" where
  "add_join_conditions join_conditions g =
     foldl (\<lambda>g join_cond. add_join g (left_table join_cond) (right_table join_cond)
                            (left_column join_cond) (right_column join_cond) True)
       g join_conditions"

definition add_predicates ::
  "(string \<times> string list) list \<Rightarrow> PredicateClassifier \<Rightarrow> PredicateClassifier" where
  "add_predicates predicates cl =
     foldl (\<lambda>cl (predicate_text, table_set). add_predicate cl predicate_text table_set)
       cl predicates"

definition add_constant_joins :: "ConstantEqualityJoin list \<Rightarrow> JoinGraph \<Rightarrow> JoinGraph" where
  "add_constant_joins constant_joins g =
     foldl (\<lambda>g const_join. add_join g (cej_t1 const_join) (cej_t2 const_join)
                             (cej_column const_join) (cej_column const_join) False)
       g constant_joins"

text \<open>The graph before the transitive closure: asserted edges, then constant-equality edges.\<close>

definition seeded_graph ::
  "(string \<times> string) list \<Rightarrow> JoinCondition list \<Rightarrow> ConstantEqualityJoin list \<Rightarrow> JoinGraph" where
  "seeded_graph aliases join_conditions constant_joins =
     add_constant_joins constant_joins
       (add_join_conditions join_conditions
          (empty_graph\<lparr>table_aliases := foldl (\<lambda>d (alias, base_name). dict_set alias base_name d)
                                            [] aliases\<rparr>))"

definition parse_sql_build ::
  "string list \<Rightarrow> (string \<times> string) list \<Rightarrow> JoinCondition list \<Rightarrow>
   (string \<times> string list) list \<Rightarrow> ParsedSQL option" where
  "parse_sql_build tables aliases join_conditions predicates =
     (if tables = [] then None
      else (case classify_predicates (add_predicates predicates empty_classifier) of
              None \<Rightarrow> None
            | Some cl \<Rightarrow>
                (case detect_constant_equality_joins cl tables of
                   None \<Rightarrow> None
                 | Some constant_joins \<Rightarrow>
                     (case compute_transitive_closure
                             (seeded_graph aliases join_conditions constant_joins) of
                        None \<Rightarrow> None
                      | Some (g, added) \<Rightarrow>
                          (case build_equivalence_classes g of
                             None \<Rightarrow> None
                           | Some g' \<Rightarrow>
                               Some \<lparr>ps_tables = tables, ps_aliases = aliases,
                                     ps_join_graph = g', ps_classifier = cl\<rparr>)))))"

section \<open>Driver (main.py, utils.py)\<close>



text \<open>
  \<open>process_query\<close> after \<open>parse_sql\<close>: the enumeration it runs for \<open>--max-level\<close>
  \<open>max_level_arg\<close>, and the rows it returns.
\<close>

definition process_query_enumeration :: "(string \<Rightarrow> nat) \<Rightarrow> ParsedSQL \<Rightarrow> int \<Rightarrow> enum_state" where
  "process_query_enumeration h parsed max_level_arg =
     enumerate_subsets h (ps_join_graph parsed) (ps_tables parsed) (min max_level_arg 20)"




section \<open>Concrete inputs\<close>

text \<open>The ranking under which every set is iterated in sorted order.\<close>

definition sorted_iter :: "string \<Rightarrow> nat" where
  "sorted_iter x = 0"

text \<open>
  \<open>SELECT * FROM A, B WHERE A.x = B.y AND A.z > 10;\<close> as the parsing library hands it to
  \<open>parse_sql\<close>, and what the build phase makes of it.
\<close>

definition ex1_classifier :: PredicateClassifier where
  "ex1_classifier =
     \<lparr>all_predicates = [''A.x = B.y'', ''A.z > 10''],
      predicate_tables = [(''A.x = B.y'', [''A'', ''B'']), (''A.z > 10'', [''A''])],
      cls_selections = [''A.z > 10''], cls_joins = [''A.x = B.y''], cls_complex = []\<rparr>"

definition ex1_graph :: JoinGraph where
  "ex1_graph =
     \<lparr>edges = [''A|||B''],
      join_details = [(''A|||B'', [JoinDetail ''A'' ''x'' ''B'' ''y'' True])],
      table_aliases = [(''A'', ''A''), (''B'', ''B'')],
      equivalence_classes = [[''B.y'', ''A.x'']]\<rparr>"

definition ex1_parsed :: ParsedSQL where
  "ex1_parsed =
     \<lparr>ps_tables = [''A'', ''B''], ps_aliases = [(''A'', ''A''), (''B'', ''B'')],
      ps_join_graph = ex1_graph, ps_classifier = ex1_classifier\<rparr>"

lemma ex1_build:
  "parse_sql_build [''A'', ''B''] [(''A'', ''A''), (''B'', ''B'')]
     [JoinCondition ''A'' ''x'' ''B'' ''y'']
     [(''A.x = B.y'', [''A'', ''B'']), (''A.z > 10'', [''A''])] = Some ex1_parsed"
  by code_simp

definition ex1_join_sql :: string where
  "ex1_join_sql =
     ''SELECT * FROM A'' @ newline @ ''JOIN B ON A.x = B.y'' @ newline @ ''WHERE A.z > 10;''"

lemma ex1_join_query:
  "generate_subquery sorted_iter (ps_aliases ex1_parsed) ex1_classifier ex1_graph
     [''A'', ''B''] (Some [''A'']) (Some [''B'']) = Some ex1_join_sql"
  by code_simp



section \<open>The renderer does not read the decomposition\<close>

lemma join_loop_from_prefix:
  "prefix (from_clause jt) (from_clause (join_loop h g aliases jt))"
proof (induction h g aliases jt rule: join_loop.induct)
  case (1 h g aliases jt)
  show ?case
  proof (cases "remaining_tables jt = []")
    case True
    then show ?thesis by simp
  next
    case False
    show ?thesis
    proof (cases "find_next_table_for_join_tree h g (added_tables jt) (remaining_tables jt)")
      case None
      with False show ?thesis by simp
    next
      case (Some next_info)
      have "prefix (from_clause jt) (from_clause (attach_table aliases next_info jt))"
        by (simp add: attach_table_def Let_def split: option.splits)
      moreover have "prefix (from_clause (attach_table aliases next_info jt))
                       (from_clause (join_loop h g aliases (attach_table aliases next_info jt)))"
        using "1.IH" [OF False Some] .
      moreover have "join_loop h g aliases jt
                       = join_loop h g aliases (attach_table aliases next_info jt)"
        by (subst join_loop.simps) (simp add: False Some del: join_loop.simps)
      ultimately show ?thesis
        by (metis prefix_order.trans)
    qed
  qed
qed

lemma sort_head_Min:
  assumes "sort s = first # rest"
  shows "first = Min (set s)"
proof -
  have "sorted (first # rest)" using assms by (metis sorted_sort)
  moreover have "set (first # rest) = set s" using assms by (metis set_sort)
  ultimately show ?thesis
    by (metis List.finite_set Min_eqI list.set_intros(1) set_ConsD sorted_simps(2) order_refl)
qed




text \<open>
  Claim C10. The text rendered for a subset does not depend on the decomposition passed
  along: \<open>generate_subquery\<close> returns the same result for any two pairs of optional
  \<open>(left, right)\<close> arguments. The join tree is rebuilt from the subset alone: for a subset
  of two relations or more, the text starts with \<open>SELECT * FROM\<close> followed by the
  rendering of the lexicographically smallest alias of the subset.
\<close>

theorem generate_subquery_ignores_decomposition:
  "generate_subquery h aliases cl g s l r = generate_subquery h aliases cl g s l' r' \<and>
   (2 \<le> length s \<longrightarrow> generate_subquery h aliases cl g s l r = Some q \<longrightarrow>
      prefix (''SELECT * FROM '' @ render_table aliases (Min (set s))) q)"
proof (intro conjI impI)
  show "generate_subquery h aliases cl g s l r = generate_subquery h aliases cl g s l' r'"
    by (simp add: generate_subquery_def generate_join_query_def split: list.splits)
next
  assume len: "2 \<le> length s" and q: "generate_subquery h aliases cl g s l r = Some q"
  from len have "generate_subquery h aliases cl g s l r = generate_join_query h aliases cl g s l r"
    by (cases s rule: list.exhaust; cases "tl s") (auto simp: generate_subquery_def)
  with q have gq: "generate_join_query h aliases cl g s l r = Some q" by simp
  then obtain jt where jt: "build_join_tree h g aliases s = Some jt"
    and qq: "prefix (''SELECT * FROM '' @ from_clause jt) q"
    by (auto simp: generate_join_query_def split: option.splits if_splits)
  from jt obtain first rest where fr: "sort s = first # rest"
    and "jt = join_loop h g aliases \<lparr>from_clause = render_table aliases first, added_tables = [first],
                   remaining_tables = pyset rest, used_join_predicates = []\<rparr>"
    by (auto simp: build_join_tree_def split: list.splits)
  then have "prefix (render_table aliases first) (from_clause jt)"
    using join_loop_from_prefix [of "\<lparr>from_clause = render_table aliases first, added_tables = [first],
                   remaining_tables = pyset rest, used_join_predicates = []\<rparr>" h g aliases] by simp
  moreover have "first = Min (set s)" using fr by (rule sort_head_Min)
  ultimately have "prefix (''SELECT * FROM '' @ render_table aliases (Min (set s))) (''SELECT * FROM '' @ from_clause jt)"
    by simp
  from this qq show "prefix (''SELECT * FROM '' @ render_table aliases (Min (set s))) q"
    by (rule prefix_order.trans)
qed

theorem generate_subquery_ignores_decomposition_witness:
  "generate_subquery sorted_iter (ps_aliases ex1_parsed) ex1_classifier ex1_graph
       [''A'', ''B''] (Some [''A'']) (Some [''B''])
     = generate_subquery sorted_iter (ps_aliases ex1_parsed) ex1_classifier ex1_graph
         [''A'', ''B''] None None \<and>
   2 \<le> length [''A'', ''B''] \<and>
   generate_subquery sorted_iter (ps_aliases ex1_parsed) ex1_classifier ex1_graph
       [''A'', ''B''] (Some [''A'']) (Some [''B'']) = Some ex1_join_sql \<and>
   prefix (''SELECT * FROM '' @ render_table (ps_aliases ex1_parsed) (Min (set [''A'', ''B''])))
     ex1_join_sql"
  using generate_subquery_ignores_decomposition
          [of sorted_iter "ps_aliases ex1_parsed" ex1_classifier ex1_graph "[''A'', ''B'']"
              "Some [''A'']" "Some [''B'']" None None ex1_join_sql]
        ex1_join_query
  by simp


section \<open>The levels the driver enumerates\<close>

lemma dict_set_keys:
  "k \<notin> fst ` set d \<Longrightarrow> map fst (dict_set k v d) = map fst d @ [k]"
  by (induction d) auto

lemma enumerate_candidate_counts:
  "counts (fst (enumerate_candidate h g level ls t)) = counts (fst ls)"
  by (cases ls) (auto simp: enumerate_candidate_def add_subset_def Let_def split: option.splits)

lemma enumerate_level_counts:
  "counts (fst (enumerate_level h g level tables st)) = counts st"
proof -
  have "counts (fst (foldl (enumerate_candidate h g level) ls ts)) = counts (fst ls)" for ls ts
    by (induction ts arbitrary: ls) (simp_all add: enumerate_candidate_counts)
  then show ?thesis by (simp add: enumerate_level_def)
qed

lemma enumerate_levels_counts:
  "distinct levels \<Longrightarrow> set levels \<inter> fst ` set (counts st) = {} \<Longrightarrow>
   map fst (counts (enumerate_levels h g tables levels st)) = map fst (counts st) @ levels"
proof (induction levels arbitrary: st)
  case Nil
  then show ?case by simp
next
  case (Cons level levels)
  obtain st' checked added skipped where lv:
    "enumerate_level h g level tables st = (st', checked, added, skipped)"
    by (metis prod_cases4)
  have c: "counts st' = counts st"
    using enumerate_level_counts [of h g level tables st] lv by simp
  let ?st = "st'\<lparr>counts := dict_set level added (counts st')\<rparr>"
  have keys: "map fst (counts ?st) = map fst (counts st) @ [level]"
    using Cons.prems(2) by (simp add: c dict_set_keys)
  have "set levels \<inter> fst ` set (counts ?st) = {}"
  proof -
    have "fst ` set (counts ?st) = set (map fst (counts ?st))" by simp
    also have "\<dots> = fst ` set (counts st) \<union> {level}" unfolding keys by auto
    finally show ?thesis using Cons.prems by auto
  qed
  with Cons.IH [of ?st] Cons.prems(1)
  have "map fst (counts (enumerate_levels h g tables levels ?st)) = map fst (counts ?st) @ levels"
    by simp
  moreover have "enumerate_levels h g tables (level # levels) st
                   = enumerate_levels h g tables levels ?st"
    by (simp add: lv)
  ultimately show ?case using keys by simp
qed

lemma level_range_distinct: "distinct (level_range n)"
  unfolding level_range_def
  by (auto simp: distinct_map inj_on_def)

lemma enumerate_subsets_levels:
  "map fst (counts (enumerate_subsets h g tables max_level))
     = level_range (min max_level (int (length tables)))"
  unfolding enumerate_subsets_def Let_def
  by (subst enumerate_levels_counts) (simp_all add: level_range_distinct)

lemma process_query_levels:
  "map fst (counts (process_query_enumeration h parsed max_level_arg))
     = level_range (min (min max_level_arg 20) (int (length (ps_tables parsed))))"
  by (simp add: process_query_enumeration_def enumerate_subsets_levels)


lemma combinations_length:
  "t \<in> set (combinations xs k) \<Longrightarrow> length t = k"
  by (induction xs k arbitrary: t rule: combinations.induct) auto

lemma pyset_length: "length (pyset t) \<le> length t"
  by (simp add: pyset_def length_remdups_leq)

definition plans_within :: "nat \<Rightarrow> enum_state \<Rightarrow> bool" where
  "plans_within b st = list_all (\<lambda>p. length (plan_subset p) \<le> b) (all_plans st)"

lemma enumerate_candidate_within:
  "plans_within b (fst ls) \<Longrightarrow> length t \<le> b \<Longrightarrow>
   plans_within b (fst (enumerate_candidate h g level ls t))"
  using pyset_length [of t]
  by (cases ls)
     (auto simp: enumerate_candidate_def add_subset_def Let_def plans_within_def
           split: option.splits)

lemma enumerate_level_within:
  assumes "plans_within b st" and "level \<le> b"
  shows "plans_within b (fst (enumerate_level h g level tables st))"
proof -
  have "plans_within b (fst ls) \<Longrightarrow> list_all (\<lambda>t. length t \<le> b) ts \<Longrightarrow>
        plans_within b (fst (foldl (enumerate_candidate h g level) ls ts))" for ls ts
    by (induction ts arbitrary: ls) (simp_all add: enumerate_candidate_within)
  moreover have "list_all (\<lambda>t. length t \<le> b) (combinations tables level)"
    using assms(2) by (auto simp: list_all_iff combinations_length)
  ultimately show ?thesis using assms(1) by (simp add: enumerate_level_def)
qed

lemma enumerate_levels_within:
  "plans_within b st \<Longrightarrow> list_all (\<lambda>level. level \<le> b) levels \<Longrightarrow>
   plans_within b (enumerate_levels h g tables levels st)"
proof (induction levels arbitrary: st)
  case Nil
  then show ?case by simp
next
  case (Cons level levels)
  obtain st' checked added skipped where lv:
    "enumerate_level h g level tables st = (st', checked, added, skipped)"
    by (metis prod_cases4)
  have "plans_within b st'"
    using enumerate_level_within [of b st level h g tables] Cons.prems lv by simp
  then have "plans_within b (st'\<lparr>counts := dict_set level added (counts st')\<rparr>)"
    by (simp add: plans_within_def)
  with Cons show ?case by (simp add: lv)
qed

lemma enumerate_subsets_within:
  "plans_within (nat (min max_level (int (length tables))))
     (enumerate_subsets h g tables max_level)"
  unfolding enumerate_subsets_def Let_def
  by (rule enumerate_levels_within)
     (auto simp: plans_within_def level_range_def list_all_iff)


section \<open>Normalisation of constants\<close>

text \<open>The single quote, which a string literal of the theory cannot hold.\<close>

definition sq :: string where
  "sq = [CHR 0x27]"

text \<open>
  Claim C7 (the code against its own tests). \<open>test_normalize_value\<close> and
  \<open>test_extract_single_constant_value_equality\<close> expect the value \<open>2024-01-01\<close> for the
  constant \<open>'2024-01-01'::timestamp\<close>. \<open>_normalize_value\<close> deletes the outer quotes before
  the type cast, so the closing quote, which the cast still follows, stays: the value is
  \<open>2024-01-01'\<close>. A plain quoted constant loses both quotes.
\<close>

theorem normalize_value_keeps_quote_before_cast:
  "normalize_value (sq @ ''2024-01-01'' @ sq @ ''::timestamp'') = ''2024-01-01'' @ sq \<and>
   extract_single_constant_value (''t2.date = '' @ sq @ ''2024-01-01'' @ sq @ ''::timestamp'')
     = Some (ConstantValue ''t2'' ''date'' (''2024-01-01'' @ sq)) \<and>
   extract_single_constant_value (''t2.date = '' @ sq @ ''2024-01-01'' @ sq)
     = Some (ConstantValue ''t2'' ''date'' ''2024-01-01'')"
  by (intro conjI; code_simp)

section \<open>Self-edges from constant equality\<close>

text \<open>
  \<open>SELECT * FROM A WHERE A.x = 5 AND A.x IN (5);\<close> as handed to \<open>parse_sql\<close>, and the
  result of the build phase.
\<close>

definition ex8_parsed :: ParsedSQL where
  "ex8_parsed =
     \<lparr>ps_tables = [''A''], ps_aliases = [(''A'', ''A'')],
      ps_join_graph =
        \<lparr>edges = [''A|||A''],
         join_details = [(''A|||A'', [JoinDetail ''A'' ''x'' ''A'' ''x'' False])],
         table_aliases = [(''A'', ''A'')],
         equivalence_classes = [[''A.x'']]\<rparr>,
      ps_classifier =
        \<lparr>all_predicates = [''A.x = 5'', ''A.x IN (5)''],
         predicate_tables = [(''A.x = 5'', [''A'']), (''A.x IN (5)'', [''A''])],
         cls_selections = [''A.x = 5'', ''A.x IN (5)''], cls_joins = [], cls_complex = []\<rparr>\<rparr>"

text \<open>
  Claim C8 (a missed guard). The parser emits a join condition only between distinct
  relations and the closure skips compositions with \<open>t1 = t2\<close>, but
  \<open>_detect_constant_equality_joins\<close> pairs the facts of a group without comparing their
  tables: two facts about the same column and value of one relation give a detail from
  the relation to itself, which the build phase stores.
\<close>

theorem constant_equality_self_edge:
  "parse_sql_build [''A''] [(''A'', ''A'')] []
     [(''A.x = 5'', [''A'']), (''A.x IN (5)'', [''A''])] = Some ex8_parsed \<and>
   all_details (ps_join_graph ex8_parsed) = [JoinDetail ''A'' ''x'' ''A'' ''x'' False] \<and>
   list_ex (\<lambda>detail. jd_t1 detail = jd_t2 detail) (all_details (ps_join_graph ex8_parsed))"
  by (intro conjI; code_simp)

section \<open>Iteration order of the attached relations\<close>

text \<open>
  \<open>SELECT * FROM A, B, C WHERE A.x = B.y AND A.p = C.q AND B.r = C.s;\<close> after the build
  phase, and a ranking under which \<open>B\<close> comes before \<open>A\<close> when a set is iterated.
\<close>

definition ex2_parsed :: ParsedSQL where
  "ex2_parsed =
     \<lparr>ps_tables = [''A'', ''B'', ''C''],
      ps_aliases = [(''A'', ''A''), (''B'', ''B''), (''C'', ''C'')],
      ps_join_graph =
        \<lparr>edges = [''B|||C'', ''A|||C'', ''A|||B''],
         join_details =
           [(''A|||B'', [JoinDetail ''A'' ''x'' ''B'' ''y'' True]),
            (''A|||C'', [JoinDetail ''A'' ''p'' ''C'' ''q'' True]),
            (''B|||C'', [JoinDetail ''B'' ''r'' ''C'' ''s'' True])],
         table_aliases = [(''A'', ''A''), (''B'', ''B''), (''C'', ''C'')],
         equivalence_classes = [[''B.y'', ''A.x''], [''C.q'', ''A.p''], [''C.s'', ''B.r'']]\<rparr>,
      ps_classifier =
        \<lparr>all_predicates = [''A.x = B.y'', ''A.p = C.q'', ''B.r = C.s''],
         predicate_tables =
           [(''A.x = B.y'', [''A'', ''B'']), (''A.p = C.q'', [''A'', ''C'']),
            (''B.r = C.s'', [''B'', ''C''])],
         cls_selections = [], cls_joins = [''A.x = B.y'', ''A.p = C.q'', ''B.r = C.s''],
         cls_complex = []\<rparr>\<rparr>"

lemma ex2_build:
  "parse_sql_build [''A'', ''B'', ''C''] [(''A'', ''A''), (''B'', ''B''), (''C'', ''C'')]
     [JoinCondition ''A'' ''x'' ''B'' ''y'', JoinCondition ''A'' ''p'' ''C'' ''q'',
      JoinCondition ''B'' ''r'' ''C'' ''s'']
     [(''A.x = B.y'', [''A'', ''B'']), (''A.p = C.q'', [''A'', ''C'']),
      (''B.r = C.s'', [''B'', ''C''])] = Some ex2_parsed"
  by code_simp

definition a_last_iter :: "string \<Rightarrow> nat" where
  "a_last_iter x = (if x = ''A'' then 1 else 0)"

text \<open>
  Claim C2 (an unsorted iteration). The enumerator sorts before it iterates, and the
  renderer sorts \<open>remaining_tables\<close>, but \<open>_find_next_table_for_join_tree\<close> runs
  \<open>for added in added_tables\<close> over a set in whatever order the run's string hashes give.
  On the same parsed input, two iteration orders of \<open>{A, B}\<close> give the same plan sequence
  and two different texts for the subset \<open>{A, B, C}\<close>.
\<close>

theorem rendered_text_depends_on_set_order:
  "map plan_subset (all_plans (process_query_enumeration sorted_iter ex2_parsed 20))
     = map plan_subset (all_plans (process_query_enumeration a_last_iter ex2_parsed 20)) \<and>
   set_iter sorted_iter [''A'', ''B''] = [''A'', ''B''] \<and>
   set_iter a_last_iter [''A'', ''B''] = [''B'', ''A''] \<and>
   generate_subquery sorted_iter (ps_aliases ex2_parsed) (ps_classifier ex2_parsed)
       (ps_join_graph ex2_parsed) [''A'', ''B'', ''C''] (Some [''A'']) (Some [''B'', ''C''])
     = Some (''SELECT * FROM A'' @ newline @ ''JOIN B ON A.x = B.y'' @ newline @
             ''JOIN C ON A.p = C.q'' @ newline @ ''WHERE B.r = C.s;'') \<and>
   generate_subquery a_last_iter (ps_aliases ex2_parsed) (ps_classifier ex2_parsed)
       (ps_join_graph ex2_parsed) [''A'', ''B'', ''C''] (Some [''A'']) (Some [''B'', ''C''])
     = Some (''SELECT * FROM A'' @ newline @ ''JOIN B ON A.x = B.y'' @ newline @
             ''JOIN C ON B.r = C.s'' @ newline @ ''WHERE A.p = C.q;'')"
  by (intro conjI; code_simp)

section \<open>A connected subset the renderer cannot join\<close>

text \<open>
  \<open>SELECT * FROM t AS a, u AS "a.b", v AS c WHERE "a.b".x = c.y;\<close> after the build phase.
\<close>

definition dq :: string where
  "dq = [CHR 0x22]"

definition ex6_parsed :: ParsedSQL where
  "ex6_parsed =
     \<lparr>ps_tables = [''a'', ''a.b'', ''c''],
      ps_aliases = [(''a'', ''t''), (''a.b'', ''u''), (''c'', ''v'')],
      ps_join_graph =
        \<lparr>edges = [''a.b|||c''],
         join_details = [(''a.b|||c'', [JoinDetail ''a.b'' ''x'' ''c'' ''y'' True])],
         table_aliases = [(''a'', ''t''), (''a.b'', ''u''), (''c'', ''v'')],
         equivalence_classes = [[''c.y'', ''a.b.x'']]\<rparr>,
      ps_classifier =
        \<lparr>all_predicates = [dq @ ''a.b'' @ dq @ ''.x = c.y''],
         predicate_tables = [(dq @ ''a.b'' @ dq @ ''.x = c.y'', [''a.b'', ''c''])],
         cls_selections = [], cls_joins = [dq @ ''a.b'' @ dq @ ''.x = c.y''],
         cls_complex = []\<rparr>\<rparr>"

lemma ex6_build:
  "parse_sql_build [''a'', ''a.b'', ''c''] [(''a'', ''t''), (''a.b'', ''u''), (''c'', ''v'')]
     [JoinCondition ''a.b'' ''x'' ''c'' ''y'']
     [(dq @ ''a.b'' @ dq @ ''.x = c.y'', [''a.b'', ''c''])] = Some ex6_parsed"
  by code_simp

text \<open>
  Claim C6 (connectivity by string prefix). \<open>are_in_same_ec\<close> tests \<open>tc.startswith(t + ".")\<close>
  on the qualified column strings, so the relation \<open>a\<close> is taken to own the column \<open>a.b.x\<close>
  of the relation \<open>a.b\<close>: \<open>{a, c}\<close> passes \<open>is_connected\<close> and is emitted, while no detail is
  stored between \<open>a\<close> and \<open>c\<close>. The renderer finds no next relation, leaves the loop by the
  branch marked "should not happen", and the emitted text lacks \<open>c\<close>.
\<close>

theorem connected_subset_without_next_table:
  "is_connected sorted_iter (ps_join_graph ex6_parsed) [''a'', ''c''] \<and>
   [''a'', ''c''] \<in> set (map plan_subset
       (all_plans (process_query_enumeration sorted_iter ex6_parsed 20))) \<and>
   find_next_table_for_join_tree sorted_iter (ps_join_graph ex6_parsed) [''a''] [''c''] = None \<and>
   build_join_tree sorted_iter (ps_join_graph ex6_parsed) (ps_aliases ex6_parsed) [''a'', ''c'']
     = Some \<lparr>from_clause = ''t a'', added_tables = [''a''], remaining_tables = [''c''],
              used_join_predicates = []\<rparr> \<and>
   generate_subquery sorted_iter (ps_aliases ex6_parsed) (ps_classifier ex6_parsed)
       (ps_join_graph ex6_parsed) [''a'', ''c''] (Some [''a'']) (Some [''c''])
     = Some ''SELECT * FROM t a;''"
  by (intro conjI; code_simp)


section \<open>The left-deep join of the rendered text\<close>



lemma set_iter_set [simp]: "set (set_iter h xs) = set xs"
  by (simp add: set_iter_def)

lemma pyset_set [simp]: "set (pyset xs) = set xs"
  by (simp add: pyset_def)




























section \<open>The shape of the emitted text\<close>






section \<open>Predicates of the rendered text\<close>


text \<open>
  \<open>SELECT * FROM info_type it1, info_type it2 WHERE it1.info = 'rating' AND
  it2.info = 'rating';\<close> after the build phase.
\<close>

definition ex3_parsed :: ParsedSQL where
  "ex3_parsed =
     \<lparr>ps_tables = [''it1'', ''it2''],
      ps_aliases = [(''it1'', ''info_type''), (''it2'', ''info_type'')],
      ps_join_graph =
        \<lparr>edges = [''it1|||it2''],
         join_details = [(''it1|||it2'', [JoinDetail ''it1'' ''info'' ''it2'' ''info'' False])],
         table_aliases = [(''it1'', ''info_type''), (''it2'', ''info_type'')],
         equivalence_classes = [[''it2.info'', ''it1.info'']]\<rparr>,
      ps_classifier =
        \<lparr>all_predicates = [''it1.info = '' @ sq @ ''rating'' @ sq,
                            ''it2.info = '' @ sq @ ''rating'' @ sq],
         predicate_tables = [(''it1.info = '' @ sq @ ''rating'' @ sq, [''it1'']),
                             (''it2.info = '' @ sq @ ''rating'' @ sq, [''it2''])],
         cls_selections = [''it1.info = '' @ sq @ ''rating'' @ sq,
                           ''it2.info = '' @ sq @ ''rating'' @ sq],
         cls_joins = [], cls_complex = []\<rparr>\<rparr>"

lemma ex3_build:
  "parse_sql_build [''it1'', ''it2''] [(''it1'', ''info_type''), (''it2'', ''info_type'')] []
     [(''it1.info = '' @ sq @ ''rating'' @ sq, [''it1'']),
      (''it2.info = '' @ sq @ ''rating'' @ sq, [''it2''])] = Some ex3_parsed"
  by code_simp

definition ex3_tree :: join_tree where
  "ex3_tree =
     \<lparr>from_clause = ''info_type it1'' @ newline @ ''JOIN info_type it2 ON it1.info = it2.info'',
      added_tables = [''it1'', ''it2''], remaining_tables = [],
      used_join_predicates = [''it1.info = it2.info'']\<rparr>"


lemma ex3_tree_built:
  "build_join_tree sorted_iter (ps_join_graph ex3_parsed) (ps_aliases ex3_parsed)
     [''it1'', ''it2''] = Some ex3_tree"
  by code_simp





section \<open>Decomposition witnesses\<close>

definition pipe_free :: "string \<Rightarrow> bool" where
  "pipe_free t = (CHR ''|'' \<notin> set t)"

text \<open>A subset as the enumerator holds it: sorted, without repetition, not empty.\<close>

definition good_subset :: "string list \<Rightarrow> bool" where
  "good_subset s \<longleftrightarrow> sorted s \<and> distinct s \<and> s \<noteq> [] \<and> list_all pipe_free s"

lemma takeWhile_pipe_free:
  "pipe_free x \<Longrightarrow> takeWhile (\<lambda>c. c \<noteq> CHR ''|'') (x @ CHR ''|'' # rest) = x"
  by (induction x) (auto simp: pipe_free_def)

lemma takeWhile_pipe_free_all:
  "pipe_free x \<Longrightarrow> takeWhile (\<lambda>c. c \<noteq> CHR ''|'') x = x"
  by (induction x) (auto simp: pipe_free_def)

lemma join_str_head:
  "pipe_free x \<Longrightarrow> takeWhile (\<lambda>c. c \<noteq> CHR ''|'') (join_str ''|||'' (x # xs)) = x"
  by (cases xs) (simp_all add: takeWhile_pipe_free takeWhile_pipe_free_all)

lemma join_str_cons:
  "xs \<noteq> [] \<Longrightarrow> join_str sep (x # xs) = x @ sep @ join_str sep xs"
  by (cases xs) simp_all

lemma join_str_inj:
  "list_all pipe_free xs \<Longrightarrow> list_all pipe_free ys \<Longrightarrow> xs \<noteq> [] \<Longrightarrow> ys \<noteq> [] \<Longrightarrow>
   join_str ''|||'' xs = join_str ''|||'' ys \<Longrightarrow> xs = ys"
proof (induction xs arbitrary: ys)
  case Nil
  then show ?case by simp
next
  case (Cons x xs)
  from Cons.prems obtain y ys' where ys: "ys = y # ys'" by (cases ys) auto
  have px: "pipe_free x" and py: "pipe_free y" using Cons.prems ys by auto
  have "x = y"
    using join_str_head [OF px, of xs] join_str_head [OF py, of ys'] Cons.prems(5) ys by simp
  show ?case
  proof (cases "xs = []")
    case True
    show ?thesis
    proof (cases "ys' = []")
      case True
      with \<open>xs = []\<close> \<open>x = y\<close> ys show ?thesis by simp
    next
      case False
      with True Cons.prems(5) ys \<open>x = y\<close> show ?thesis
        by (simp add: join_str_cons)
    qed
  next
    case False
    show ?thesis
    proof (cases "ys' = []")
      case True
      with False Cons.prems(5) ys \<open>x = y\<close> show ?thesis
        by (simp add: join_str_cons)
    next
      case nonempty: False
      have "join_str ''|||'' xs = join_str ''|||'' ys'"
        using Cons.prems(5) ys \<open>x = y\<close> False nonempty by (simp add: join_str_cons)
      then have "xs = ys'"
        using Cons.IH [of ys'] Cons.prems ys False nonempty by simp
      with \<open>x = y\<close> ys show ?thesis by simp
    qed
  qed
qed

lemma canonical_key_inj:
  assumes "good_subset s" and "good_subset s'" and "canonical_key s = canonical_key s'"
  shows "s = s'"
proof -
  have "sort s = s" "sort s' = s'"
    using assms by (simp_all add: good_subset_def sort_key_id_if_sorted)
  with assms show ?thesis
    by (auto simp: canonical_key_def good_subset_def intro: join_str_inj)
qed

lemma combinations_member:
  "t \<in> set (combinations xs k) \<Longrightarrow> y \<in> set t \<Longrightarrow> y \<in> set xs"
proof (induction xs k arbitrary: t rule: combinations.induct)
  case (3 x xs k)
  from "3.prems"(1) consider t' where "t = x # t'" "t' \<in> set (combinations xs k)"
    | "t \<in> set (combinations xs (Suc k))"
    by auto
  then show ?case
  proof cases
    case 1
    with "3.prems"(2) "3.IH"(1) [of t'] show ?thesis by auto
  next
    case 2
    with "3.prems"(2) "3.IH"(2) [of t] show ?thesis by auto
  qed
qed auto

lemma combinations_sorted:
  "t \<in> set (combinations xs k) \<Longrightarrow> sorted xs \<Longrightarrow> sorted t"
proof (induction xs k arbitrary: t rule: combinations.induct)
  case (3 x xs k)
  from "3.prems"(1) consider t' where "t = x # t'" "t' \<in> set (combinations xs k)"
    | "t \<in> set (combinations xs (Suc k))"
    by auto
  then show ?case
  proof cases
    case 1
    have "sorted t'" using "3.IH"(1) [OF 1(2)] "3.prems"(2) by simp
    moreover have "\<forall>y \<in> set t'. x \<le> y"
      using combinations_member [OF 1(2)] "3.prems"(2) by auto
    ultimately show ?thesis using 1(1) by simp
  next
    case 2
    then show ?thesis using "3.IH"(2) "3.prems"(2) by simp
  qed
qed auto

lemma combinations_distinct:
  "t \<in> set (combinations xs k) \<Longrightarrow> distinct xs \<Longrightarrow> distinct t"
proof (induction xs k arbitrary: t rule: combinations.induct)
  case (3 x xs k)
  from "3.prems"(1) consider t' where "t = x # t'" "t' \<in> set (combinations xs k)"
    | "t \<in> set (combinations xs (Suc k))"
    by auto
  then show ?case
  proof cases
    case 1
    have "distinct t'" using "3.IH"(1) [OF 1(2)] "3.prems"(2) by simp
    moreover have "x \<notin> set t'"
      using combinations_member [OF 1(2)] "3.prems"(2) by auto
    ultimately show ?thesis using 1(1) by simp
  next
    case 2
    then show ?thesis using "3.IH"(2) "3.prems"(2) by simp
  qed
qed auto

lemma pyset_id: "sorted t \<Longrightarrow> distinct t \<Longrightarrow> pyset t = t"
  by (simp add: pyset_def sort_key_id_if_sorted)

lemma pyset_sorted_distinct: "sorted (pyset t) \<and> distinct (pyset t)"
  by (simp add: pyset_def)


lemma candidate_props:
  assumes "good_subset s" and "(l, r) \<in> set (decomposition_candidates s)"
  shows "good_subset l \<and> good_subset r \<and> set l \<inter> set r = {} \<and> set l \<union> set r = set s"
proof -
  from assms(1) have srt: "sorted s" and dst: "distinct s" and pf: "list_all pipe_free s"
    by (simp_all add: good_subset_def)
  have ss: "sort s = s" using srt by (simp add: sort_key_id_if_sorted)
  from assms(2) obtain k lt where k: "1 \<le> k" "k < length s"
    and lt: "lt \<in> set (combinations s k)"
    and l: "l = pyset lt" and r: "r = filter (\<lambda>x. x \<notin> set (pyset lt)) s"
    by (auto simp: decomposition_candidates_def ss)
  have lt_sorted: "sorted lt" and lt_distinct: "distinct lt"
    using combinations_sorted [OF lt srt] combinations_distinct [OF lt dst] by simp_all
  have lt_sub: "set lt \<subseteq> set s" using combinations_member [OF lt] by blast
  have lt_len: "length lt = k" using combinations_length [OF lt] .
  have l_eq: "l = lt" using l pyset_id [OF lt_sorted lt_distinct] by simp
  have l_good: "good_subset l"
    using l_eq lt_sorted lt_distinct lt_len k(1) lt_sub pf
    by (auto simp: good_subset_def list_all_iff)
  have "card (set lt) < card (set s)"
    using lt_distinct dst lt_len k(2) by (simp add: distinct_card)
  then have "set lt \<noteq> set s" by auto
  with lt_sub have "\<exists>x \<in> set s. x \<notin> set lt" by blast
  then have r_ne: "r \<noteq> []"
    unfolding r l_eq [symmetric] l [symmetric]
    by (auto simp: filter_empty_conv l_eq)
  have r_good: "good_subset r"
    using r_ne srt dst pf unfolding r good_subset_def
    by (auto simp: list_all_iff sorted_wrt_filter)
  have "set l \<inter> set r = {}" unfolding r l by auto
  moreover have "set l \<union> set r = set s" using lt_sub unfolding r l_eq
    by (auto simp: pyset_id [OF lt_sorted lt_distinct])
  ultimately show ?thesis using l_good r_good by simp
qed

text \<open>
  What the claim asks of a plan, with respect to the subsets of the plans before it.
\<close>

definition plan_witnessed :: "JoinGraph \<Rightarrow> string list list \<Rightarrow> EnumerationPlan \<Rightarrow> bool" where
  "plan_witnessed g earlier p =
     (case plan_left p of
        None \<Rightarrow> False
      | Some l \<Rightarrow>
          (case plan_right p of
             None \<Rightarrow> False
           | Some r \<Rightarrow>
               l \<in> set earlier \<and> r \<in> set earlier \<and> set l \<inter> set r = {} \<and>
               set l \<union> set r = set (plan_subset p) \<and> can_join g l r))"

definition enum_inv :: "JoinGraph \<Rightarrow> enum_state \<Rightarrow> bool" where
  "enum_inv g st \<longleftrightarrow>
     (\<forall>k \<in> set (dp_table st). \<exists>p \<in> set (all_plans st). canonical_key (plan_subset p) = k) \<and>
     (\<forall>p \<in> set (all_plans st). good_subset (plan_subset p)) \<and>
     (\<forall>earlier p later. all_plans st = earlier @ p # later \<longrightarrow> 2 \<le> length (plan_subset p)
        \<longrightarrow> plan_witnessed g (map plan_subset earlier) p)"

lemma split_snoc:
  "xs @ [x] = earlier @ p # later \<Longrightarrow>
   (later = [] \<and> earlier = xs \<and> p = x) \<or> (\<exists>later'. later = later' @ [x] \<and> xs = earlier @ p # later')"
  by (cases later rule: rev_cases) auto

lemma add_subset_inv:
  assumes inv: "enum_inv g st" and good: "good_subset s"
    and wit: "2 \<le> length s \<Longrightarrow>
              plan_witnessed g (map plan_subset (all_plans st))
                \<lparr>plan_subset = s, plan_left = l, plan_right = r, plan_sql = []\<rparr>"
  shows "enum_inv g (add_subset st s l r)"
proof -
  let ?p = "\<lparr>plan_subset = s, plan_left = l, plan_right = r, plan_sql = []\<rparr>"
  have plans: "all_plans (add_subset st s l r) = all_plans st @ [?p]"
    and dp: "set (dp_table (add_subset st s l r)) = insert (canonical_key s) (set (dp_table st))"
    by (simp_all add: add_subset_def)
  have a: "\<forall>k \<in> set (dp_table (add_subset st s l r)).
             \<exists>p \<in> set (all_plans (add_subset st s l r)). canonical_key (plan_subset p) = k"
    using inv unfolding dp plans enum_inv_def by auto
  have b: "\<forall>p \<in> set (all_plans (add_subset st s l r)). good_subset (plan_subset p)"
    using inv good unfolding plans enum_inv_def by auto
  have c: "plan_witnessed g (map plan_subset earlier) p"
    if split: "all_plans (add_subset st s l r) = earlier @ p # later"
      and len: "2 \<le> length (plan_subset p)" for earlier p later
  proof -
    from split_snoc [OF split [unfolded plans]] show ?thesis
    proof
      assume "later = [] \<and> earlier = all_plans st \<and> p = ?p"
      with wit len show ?thesis by simp
    next
      assume "\<exists>later'. later = later' @ [?p] \<and> all_plans st = earlier @ p # later'"
      with inv len show ?thesis unfolding enum_inv_def by blast
    qed
  qed
  from a b c show ?thesis unfolding enum_inv_def by blast
qed


lemma find_result:
  "List.find P xs = Some x \<Longrightarrow> x \<in> set xs \<and> P x"
  by (induction xs) (auto split: if_splits)

lemma key_in_table:
  assumes inv: "enum_inv g st" and good: "good_subset l"
    and key: "canonical_key l \<in> set (dp_table st)"
  shows "l \<in> set (map plan_subset (all_plans st))"
proof -
  from inv key obtain p where p: "p \<in> set (all_plans st)"
    and k: "canonical_key (plan_subset p) = canonical_key l"
    unfolding enum_inv_def by blast
  from inv p have "good_subset (plan_subset p)" unfolding enum_inv_def by blast
  from canonical_key_inj [OF this good k] p show ?thesis by auto
qed

lemma enumerate_candidate_inv:
  assumes inv: "enum_inv g (fst ls)" and pf: "list_all pipe_free t"
    and ne: "level = 1 \<Longrightarrow> length t = 1"
  shows "enum_inv g (fst (enumerate_candidate h g level ls t))"
proof -
  obtain st checked added skipped where ls: "ls = (st, checked, added, skipped)"
    by (metis prod_cases4)
  have inv': "enum_inv g st" using inv ls by simp
  let ?s = "pyset t"
  have base: "sorted ?s" "distinct ?s" "list_all pipe_free ?s"
    using pf by (simp_all add: pyset_sorted_distinct list_all_iff)
  show ?thesis
  proof (cases "is_connected h g ?s")
    case False
    then show ?thesis using inv' by (simp add: enumerate_candidate_def ls Let_def)
  next
    case conn: True
    show ?thesis
    proof (cases "level = 1")
      case True
      from ne [OF True] obtain x where "t = [x]" by (cases t) auto
      then have s1: "?s = [x]" by (simp add: pyset_def)
      then have "good_subset ?s" using base by (simp add: good_subset_def)
      from add_subset_inv [OF inv' this, of None None] s1
      have "enum_inv g (add_subset st ?s None None)" by simp
      then show ?thesis using conn True by (simp add: enumerate_candidate_def ls Let_def)
    next
      case False
      show ?thesis
      proof (cases "find_valid_decomposition g (dp_table st) ?s")
        case None
        then show ?thesis using conn False inv'
          by (simp add: enumerate_candidate_def ls Let_def)
      next
        case (Some decomp)
        obtain l r where lr: "decomp = (l, r)" by (cases decomp)
        from Some have mem: "(l, r) \<in> set (decomposition_candidates ?s)"
          and keys: "canonical_key l \<in> set (dp_table st)" "canonical_key r \<in> set (dp_table st)"
          and cj: "can_join g l r"
          using find_result [OF Some [unfolded find_valid_decomposition_def]]
          by (simp_all add: lr)
        from mem have "?s \<noteq> []" by (auto simp: decomposition_candidates_def)
        then have good: "good_subset ?s" using base by (simp add: good_subset_def)
        from candidate_props [OF good mem]
        have gl: "good_subset l" and gr: "good_subset r"
          and disj: "set l \<inter> set r = {}" and un: "set l \<union> set r = set ?s"
          by simp_all
        have "plan_witnessed g (map plan_subset (all_plans st))
                \<lparr>plan_subset = ?s, plan_left = Some l, plan_right = Some r, plan_sql = []\<rparr>"
          using key_in_table [OF inv' gl keys(1)] key_in_table [OF inv' gr keys(2)] disj un cj
          by (simp add: plan_witnessed_def)
        from add_subset_inv [OF inv' good this]
        show ?thesis using conn False Some
          by (simp add: enumerate_candidate_def ls Let_def lr)
      qed
    qed
  qed
qed

lemma enumerate_level_inv:
  assumes inv: "enum_inv g st" and pf: "list_all pipe_free tables"
  shows "enum_inv g (fst (enumerate_level h g level tables st))"
proof -
  have step: "enum_inv g (fst ls) \<Longrightarrow>
        list_all (\<lambda>t. list_all pipe_free t \<and> length t = level) ts \<Longrightarrow>
        enum_inv g (fst (foldl (enumerate_candidate h g level) ls ts))" for ls ts
    by (induction ts arbitrary: ls) (simp_all add: enumerate_candidate_inv)
  have "list_all (\<lambda>t. list_all pipe_free t \<and> length t = level) (combinations tables level)"
    using pf combinations_member [of _ tables level] combinations_length [of _ tables level]
    unfolding list_all_iff by blast
  with step [of "(st, 0, 0, 0)"] inv show ?thesis
    by (simp add: enumerate_level_def)
qed

lemma enumerate_levels_inv:
  "enum_inv g st \<Longrightarrow> list_all pipe_free tables \<Longrightarrow>
   enum_inv g (enumerate_levels h g tables levels st)"
proof (induction levels arbitrary: st)
  case Nil
  then show ?case by simp
next
  case (Cons level levels)
  obtain st' checked added skipped where lv:
    "enumerate_level h g level tables st = (st', checked, added, skipped)"
    by (metis prod_cases4)
  have "enum_inv g st'"
    using enumerate_level_inv [OF Cons.prems, of h level] lv by simp
  then have "enum_inv g (st'\<lparr>counts := dict_set level added (counts st')\<rparr>)"
    by (simp add: enum_inv_def)
  with Cons show ?case by (simp add: lv)
qed

lemma enumerate_subsets_inv:
  assumes "list_all pipe_free tables"
  shows "enum_inv g (enumerate_subsets h g tables max_level)"
proof -
  have "enum_inv g \<lparr>dp_table = [], all_plans = [], counts = []\<rparr>"
    by (simp add: enum_inv_def)
  moreover have "list_all pipe_free (sort tables)"
    using assms by (simp add: list_all_iff)
  ultimately show ?thesis
    unfolding enumerate_subsets_def Let_def by (rule enumerate_levels_inv)
qed

text \<open>
  Claim C4, as amended. When no alias contains the character \<open>|\<close> (of which the key
  delimiter is made), every plan of the emitted sequence whose subset has two relations or
  more carries a decomposition \<open>(left, right)\<close> such that \<open>left\<close> and \<open>right\<close> are the
  subsets of plans strictly earlier in the sequence, are disjoint, together make up the
  subset, and satisfy \<open>can_join\<close> on the join graph.
\<close>

theorem emitted_plans_witnessed:
  assumes "list_all pipe_free tables"
    and "all_plans (enumerate_subsets h g tables max_level) = earlier @ p # later"
    and "2 \<le> length (plan_subset p)"
  shows "plan_witnessed g (map plan_subset earlier) p"
  using enumerate_subsets_inv [OF assms(1), of g h max_level] assms(2,3)
  unfolding enum_inv_def by blast


definition singleton_plan :: "string \<Rightarrow> EnumerationPlan" where
  "singleton_plan t = \<lparr>plan_subset = [t], plan_left = None, plan_right = None, plan_sql = []\<rparr>"

definition pair_plan :: "string \<Rightarrow> string \<Rightarrow> EnumerationPlan" where
  "pair_plan ta tb =
     \<lparr>plan_subset = [ta, tb], plan_left = Some [ta], plan_right = Some [tb], plan_sql = []\<rparr>"

lemma ex1_all_plans:
  "all_plans (enumerate_subsets sorted_iter ex1_graph [''A'', ''B''] 20)
     = [singleton_plan ''A'', singleton_plan ''B''] @ pair_plan ''A'' ''B'' # []"
  by code_simp

theorem emitted_plans_witnessed_witness:
  "list_all pipe_free [''A'', ''B''] \<and>
   all_plans (enumerate_subsets sorted_iter ex1_graph [''A'', ''B''] 20)
     = [singleton_plan ''A'', singleton_plan ''B''] @ pair_plan ''A'' ''B'' # [] \<and>
   2 \<le> length (plan_subset (pair_plan ''A'' ''B'')) \<and>
   plan_witnessed ex1_graph (map plan_subset [singleton_plan ''A'', singleton_plan ''B''])
     (pair_plan ''A'' ''B'')"
proof -
  have pf: "list_all pipe_free [''A'', ''B'']" by code_simp
  have len: "2 \<le> length (plan_subset (pair_plan ''A'' ''B''))" by (simp add: pair_plan_def)
  from emitted_plans_witnessed [OF pf ex1_all_plans len] pf ex1_all_plans len
  show ?thesis by simp
qed

text \<open>
  \<open>SELECT * FROM a, b, c, "b|||c" WHERE a.x = b.y AND a.z = c.w;\<close> after the build phase:
  the fourth relation is named like the key of the subset \<open>{b, c}\<close>.
\<close>

definition ex4_parsed :: ParsedSQL where
  "ex4_parsed =
     \<lparr>ps_tables = [''a'', ''b'', ''c'', ''b|||c''],
      ps_aliases = [(''a'', ''a''), (''b'', ''b''), (''c'', ''c''), (''b|||c'', ''b|||c'')],
      ps_join_graph =
        \<lparr>edges = [''a|||c'', ''a|||b''],
         join_details =
           [(''a|||b'', [JoinDetail ''a'' ''x'' ''b'' ''y'' True]),
            (''a|||c'', [JoinDetail ''a'' ''z'' ''c'' ''w'' True])],
         table_aliases = [(''a'', ''a''), (''b'', ''b''), (''c'', ''c''), (''b|||c'', ''b|||c'')],
         equivalence_classes = [[''b.y'', ''a.x''], [''c.w'', ''a.z'']]\<rparr>,
      ps_classifier =
        \<lparr>all_predicates = [''a.x = b.y'', ''a.z = c.w''],
         predicate_tables = [(''a.x = b.y'', [''a'', ''b'']), (''a.z = c.w'', [''a'', ''c''])],
         cls_selections = [], cls_joins = [''a.x = b.y'', ''a.z = c.w''], cls_complex = []\<rparr>\<rparr>"

lemma ex4_build:
  "parse_sql_build [''a'', ''b'', ''c'', ''b|||c'']
     [(''a'', ''a''), (''b'', ''b''), (''c'', ''c''), (''b|||c'', ''b|||c'')]
     [JoinCondition ''a'' ''x'' ''b'' ''y'', JoinCondition ''a'' ''z'' ''c'' ''w'']
     [(''a.x = b.y'', [''a'', ''b'']), (''a.z = c.w'', [''a'', ''c''])] = Some ex4_parsed"
  by code_simp

definition ex4_earlier :: "EnumerationPlan list" where
  "ex4_earlier =
     [singleton_plan ''a'', singleton_plan ''b'', singleton_plan ''b|||c'', singleton_plan ''c'',
      pair_plan ''a'' ''b'', pair_plan ''a'' ''c'']"

definition ex4_last :: EnumerationPlan where
  "ex4_last =
     \<lparr>plan_subset = [''a'', ''b'', ''c''], plan_left = Some [''a''],
      plan_right = Some [''b'', ''c''], plan_sql = []\<rparr>"

text \<open>
  The claim as stated (for any relation list) fails there: \<open>{b, c}\<close> is not connected and
  is never admitted, yet its key \<open>b|||c\<close> is in the table (it is the key of the singleton
  of the fourth relation), so \<open>{a, b, c}\<close> is admitted with \<open>right = {b, c}\<close>, a subset of
  no earlier plan.
\<close>

theorem colliding_key_counterexample:
  "all_plans (process_query_enumeration sorted_iter ex4_parsed 20) = ex4_earlier @ [ex4_last] \<and>
   2 \<le> length (plan_subset ex4_last) \<and>
   plan_right ex4_last = Some [''b'', ''c''] \<and>
   [''b'', ''c''] \<notin> set (map plan_subset ex4_earlier) \<and>
   \<not> plan_witnessed (ps_join_graph ex4_parsed) (map plan_subset ex4_earlier) ex4_last \<and>
   canonical_key [''b'', ''c''] = canonical_key [''b|||c'']"
  by (intro conjI; code_simp)


section \<open>The subsets the enumerator considers\<close>

text \<open>
  The test a candidate passes to be admitted, against a table \<open>dp\<close> of keys: it is
  connected and, unless it is a singleton, it has a valid decomposition.
\<close>

definition admits :: "(string \<Rightarrow> nat) \<Rightarrow> JoinGraph \<Rightarrow> string list \<Rightarrow> string list \<Rightarrow> bool" where
  "admits h g dp c \<longleftrightarrow>
     is_connected h g c \<and> (length c = 1 \<or> find_valid_decomposition g dp c \<noteq> None)"

lemma combinations_good:
  assumes "c \<in> set (combinations tables k)" and "1 \<le> k"
    and "sorted tables" and "distinct tables" and "list_all pipe_free tables"
  shows "good_subset c \<and> length c = k \<and> pyset c = c"
proof -
  have s: "sorted c" and d: "distinct c"
    using combinations_sorted [OF assms(1,3)] combinations_distinct [OF assms(1,4)] by simp_all
  have len: "length c = k" using combinations_length [OF assms(1)] .
  with assms(2) have "c \<noteq> []" by auto
  moreover have "list_all pipe_free c"
    using combinations_member [OF assms(1)] assms(5) by (auto simp: list_all_iff)
  ultimately show ?thesis using s d len pyset_id [OF s d] by (simp add: good_subset_def)
qed

lemma candidate_shorter:
  assumes "good_subset s" and "(l, r) \<in> set (decomposition_candidates s)"
  shows "length l < length s \<and> length r < length s"
proof -
  from candidate_props [OF assms] have gl: "good_subset l" and gr: "good_subset r"
    and dj: "set l \<inter> set r = {}" and un: "set l \<union> set r = set s"
    by simp_all
  have "card (set l) + card (set r) = card (set s)"
    using card_Un_disjoint [of "set l" "set r"] dj un by simp
  moreover have "card (set l) = length l" "card (set r) = length r" "card (set s) = length s"
    using gl gr assms(1) by (simp_all add: good_subset_def distinct_card)
  moreover have "length l \<noteq> 0" "length r \<noteq> 0"
    using gl gr by (simp_all add: good_subset_def)
  ultimately show ?thesis by linarith
qed

lemma find_valid_decomposition_iff:
  "find_valid_decomposition g dp s \<noteq> None \<longleftrightarrow>
     (\<exists>l r. (l, r) \<in> set (decomposition_candidates s) \<and>
        canonical_key l \<in> set dp \<and> canonical_key r \<in> set dp \<and> can_join g l r)"
  unfolding find_valid_decomposition_def by (auto simp: find_None_iff)

text \<open>Keys of subsets that are not smaller do not change the verdict on a candidate.\<close>

lemma admits_stable:
  assumes "good_subset c" and "good_subset c'" and "length c \<le> length c'"
    and "set dp' = insert (canonical_key c') (set dp)"
  shows "admits h g dp' c \<longleftrightarrow> admits h g dp c"
proof -
  have key: "canonical_key x \<in> set dp' \<longleftrightarrow> canonical_key x \<in> set dp"
    if "good_subset x" and "length x < length c" for x
  proof -
    have "canonical_key x \<noteq> canonical_key c'"
    proof
      assume "canonical_key x = canonical_key c'"
      from canonical_key_inj [OF that(1) assms(2) this] that(2) assms(3) show False by simp
    qed
    then show ?thesis using assms(4) by simp
  qed
  have "(canonical_key l \<in> set dp' \<and> canonical_key r \<in> set dp' \<and> can_join g l r) \<longleftrightarrow>
        (canonical_key l \<in> set dp \<and> canonical_key r \<in> set dp \<and> can_join g l r)"
    if mem: "(l, r) \<in> set (decomposition_candidates c)" for l r
    using candidate_props [OF assms(1) mem] candidate_shorter [OF assms(1) mem] key by simp
  then have "find_valid_decomposition g dp' c \<noteq> None \<longleftrightarrow> find_valid_decomposition g dp c \<noteq> None"
    unfolding find_valid_decomposition_iff by blast
  then show ?thesis unfolding admits_def by simp
qed

text \<open>
  The state while level \<open>m + 1\<close> is run over a sorted relation list: \<open>D\<close> holds the
  candidates of that level already seen.
\<close>

definition level_inv ::
  "(string \<Rightarrow> nat) \<Rightarrow> JoinGraph \<Rightarrow> string list \<Rightarrow> nat \<Rightarrow> string list set \<Rightarrow> enum_state \<Rightarrow> bool"
  where
  "level_inv h g tables m D st \<longleftrightarrow>
     (\<forall>s \<in> set (map plan_subset (all_plans st)).
        (\<exists>k. 1 \<le> k \<and> k \<le> m \<and> s \<in> set (combinations tables k)) \<or> s \<in> D) \<and>
     (\<forall>k c. 1 \<le> k \<longrightarrow> k \<le> m \<longrightarrow> c \<in> set (combinations tables k) \<longrightarrow>
        (c \<in> set (map plan_subset (all_plans st)) \<longleftrightarrow> admits h g (dp_table st) c)) \<and>
     (\<forall>c \<in> D. c \<in> set (map plan_subset (all_plans st)) \<longleftrightarrow> admits h g (dp_table st) c)"

lemma level_inv_counts [simp]:
  "level_inv h g tables m D (st\<lparr>counts := x\<rparr>) = level_inv h g tables m D st"
  by (simp add: level_inv_def)

lemma enumerate_candidate_cases:
  assumes "pyset c = c"
  shows "(fst (enumerate_candidate h g level ls c) = fst ls \<and>
          \<not> (is_connected h g c \<and> (level = 1 \<or> find_valid_decomposition g (dp_table (fst ls)) c \<noteq> None))) \<or>
         ((\<exists>l r. fst (enumerate_candidate h g level ls c) = add_subset (fst ls) c l r) \<and>
          is_connected h g c \<and> (level = 1 \<or> find_valid_decomposition g (dp_table (fst ls)) c \<noteq> None))"
  by (cases ls) (auto simp: enumerate_candidate_def Let_def assms split: option.splits)

lemma enumerate_candidate_level_inv:
  assumes inv: "level_inv h g tables m D (fst ls)"
    and c: "c \<in> set (combinations tables (Suc m))"
    and D: "D \<subseteq> set (combinations tables (Suc m))"
    and tables: "sorted tables" "distinct tables" "list_all pipe_free tables"
  shows "level_inv h g tables m (insert c D) (fst (enumerate_candidate h g (Suc m) ls c))"
proof -
  let ?st = "fst ls"
  let ?plans = "\<lambda>st. set (map plan_subset (all_plans st))"
  from combinations_good [OF c _ tables] have good: "good_subset c" and len: "length c = Suc m"
    and py: "pyset c = c" by simp_all
  have lvl: "(Suc m = 1 \<or> find_valid_decomposition g (dp_table ?st) c \<noteq> None)
               \<longleftrightarrow> (length c = 1 \<or> find_valid_decomposition g (dp_table ?st) c \<noteq> None)"
    using len by simp
  have i1: "\<forall>s \<in> ?plans ?st. (\<exists>k. 1 \<le> k \<and> k \<le> m \<and> s \<in> set (combinations tables k)) \<or> s \<in> D"
    and i2: "\<forall>k c. 1 \<le> k \<longrightarrow> k \<le> m \<longrightarrow> c \<in> set (combinations tables k) \<longrightarrow>
               (c \<in> ?plans ?st \<longleftrightarrow> admits h g (dp_table ?st) c)"
    and i3: "\<forall>c \<in> D. c \<in> ?plans ?st \<longleftrightarrow> admits h g (dp_table ?st) c"
    using inv unfolding level_inv_def by blast+
  from enumerate_candidate_cases [OF py, of h g "Suc m" ls] show ?thesis
  proof
    assume a: "fst (enumerate_candidate h g (Suc m) ls c) = ?st \<and>
               \<not> (is_connected h g c \<and>
                  (Suc m = 1 \<or> find_valid_decomposition g (dp_table ?st) c \<noteq> None))"
    then have no: "\<not> admits h g (dp_table ?st) c" unfolding admits_def lvl by simp
    have "c \<notin> ?plans ?st"
    proof
      assume mem: "c \<in> ?plans ?st"
      with i1 have "(\<exists>k. 1 \<le> k \<and> k \<le> m \<and> c \<in> set (combinations tables k)) \<or> c \<in> D"
        by blast
      then show False
      proof
        assume "\<exists>k. 1 \<le> k \<and> k \<le> m \<and> c \<in> set (combinations tables k)"
        then obtain k where "k \<le> m" "c \<in> set (combinations tables k)" by blast
        with combinations_length [of c tables k] len show False by simp
      next
        assume "c \<in> D"
        with i3 mem no show False by blast
      qed
    qed
    with no i1 i2 i3 a show ?thesis unfolding level_inv_def by auto
  next
    assume a: "(\<exists>l r. fst (enumerate_candidate h g (Suc m) ls c) = add_subset ?st c l r) \<and>
               is_connected h g c \<and>
               (Suc m = 1 \<or> find_valid_decomposition g (dp_table ?st) c \<noteq> None)"
    then obtain l r where st': "fst (enumerate_candidate h g (Suc m) ls c) = add_subset ?st c l r"
      by blast
    let ?st' = "add_subset ?st c l r"
    from a have yes: "admits h g (dp_table ?st) c" unfolding admits_def lvl by simp
    have plans: "?plans ?st' = insert c (?plans ?st)"
      and dp: "set (dp_table ?st') = insert (canonical_key c) (set (dp_table ?st))"
      by (simp_all add: add_subset_def)
    have stable: "admits h g (dp_table ?st') x \<longleftrightarrow> admits h g (dp_table ?st) x"
      if "x \<in> set (combinations tables k)" "1 \<le> k" "k \<le> Suc m" for x k
    proof -
      from combinations_good [OF that(1,2) tables] have "good_subset x" "length x = k" by simp_all
      with that(3) len show ?thesis
        by (intro admits_stable [OF _ good _ dp]) simp_all
    qed
    have n1: "\<forall>s \<in> ?plans ?st'.
                (\<exists>k. 1 \<le> k \<and> k \<le> m \<and> s \<in> set (combinations tables k)) \<or> s \<in> insert c D"
      using i1 unfolding plans by blast
    have n2: "c' \<in> ?plans ?st' \<longleftrightarrow> admits h g (dp_table ?st') c'"
      if k: "1 \<le> k" "k \<le> m" and c': "c' \<in> set (combinations tables k)" for k c'
    proof -
      have "c' \<noteq> c" using combinations_length [OF c'] len k(2) by auto
      then have "c' \<in> ?plans ?st' \<longleftrightarrow> c' \<in> ?plans ?st" unfolding plans by simp
      also have "\<dots> \<longleftrightarrow> admits h g (dp_table ?st) c'" using i2 k c' by blast
      also have "\<dots> \<longleftrightarrow> admits h g (dp_table ?st') c'"
        using stable [OF c' k(1)] k(2) by simp
      finally show ?thesis .
    qed
    have n3: "c' \<in> ?plans ?st' \<longleftrightarrow> admits h g (dp_table ?st') c'" if "c' \<in> insert c D" for c'
    proof (cases "c' = c")
      case True
      have "admits h g (dp_table ?st') c" using stable [OF c] yes by simp
      then show ?thesis unfolding True plans by simp
    next
      case False
      with that have mem: "c' \<in> D" by simp
      with D have c': "c' \<in> set (combinations tables (Suc m))" by blast
      have "c' \<in> ?plans ?st' \<longleftrightarrow> c' \<in> ?plans ?st" unfolding plans using False by simp
      also have "\<dots> \<longleftrightarrow> admits h g (dp_table ?st) c'" using i3 mem by blast
      also have "\<dots> \<longleftrightarrow> admits h g (dp_table ?st') c'" using stable [OF c'] by simp
      finally show ?thesis .
    qed
    from n1 n2 n3 show ?thesis unfolding st' level_inv_def by blast
  qed
qed

lemma enumerate_candidates_level_inv:
  assumes tables: "sorted tables" "distinct tables" "list_all pipe_free tables"
  shows "level_inv h g tables m D (fst ls) \<Longrightarrow> D \<subseteq> set (combinations tables (Suc m)) \<Longrightarrow>
         set cs \<subseteq> set (combinations tables (Suc m)) \<Longrightarrow>
         level_inv h g tables m (D \<union> set cs) (fst (foldl (enumerate_candidate h g (Suc m)) ls cs))"
proof (induction cs arbitrary: ls D)
  case Nil
  then show ?case by simp
next
  case (Cons c cs)
  from Cons.prems(3) have c: "c \<in> set (combinations tables (Suc m))" by simp
  have "level_inv h g tables m (insert c D) (fst (enumerate_candidate h g (Suc m) ls c))"
    using enumerate_candidate_level_inv [OF Cons.prems(1) c Cons.prems(2) tables] .
  from Cons.IH [OF this] Cons.prems(2,3) c
  have "level_inv h g tables m (insert c D \<union> set cs)
          (fst (foldl (enumerate_candidate h g (Suc m)) (enumerate_candidate h g (Suc m) ls c) cs))"
    by simp
  then show ?case by simp
qed

lemma level_inv_next:
  assumes "level_inv h g tables m (set (combinations tables (Suc m))) st"
  shows "level_inv h g tables (Suc m) {} st"
  unfolding level_inv_def
proof (intro conjI ballI allI impI)
  fix s assume "s \<in> set (map plan_subset (all_plans st))"
  with assms have "(\<exists>k. 1 \<le> k \<and> k \<le> m \<and> s \<in> set (combinations tables k))
                     \<or> s \<in> set (combinations tables (Suc m))"
    unfolding level_inv_def by blast
  then show "(\<exists>k. 1 \<le> k \<and> k \<le> Suc m \<and> s \<in> set (combinations tables k)) \<or> s \<in> {}"
  proof
    assume "\<exists>k. 1 \<le> k \<and> k \<le> m \<and> s \<in> set (combinations tables k)"
    then obtain k where "1 \<le> k" "k \<le> m" "s \<in> set (combinations tables k)" by blast
    then have "1 \<le> k \<and> k \<le> Suc m \<and> s \<in> set (combinations tables k)" by simp
    then show ?thesis by blast
  next
    assume "s \<in> set (combinations tables (Suc m))"
    then have "1 \<le> Suc m \<and> Suc m \<le> Suc m \<and> s \<in> set (combinations tables (Suc m))"
      by simp
    then show ?thesis by blast
  qed
next
  fix k c assume k: "1 \<le> k" "k \<le> Suc m" and c: "c \<in> set (combinations tables k)"
  show "c \<in> set (map plan_subset (all_plans st)) \<longleftrightarrow> admits h g (dp_table st) c"
  proof (cases "k = Suc m")
    case True
    with c assms show ?thesis unfolding level_inv_def by blast
  next
    case False
    with k have "k \<le> m" by simp
    with k(1) c assms show ?thesis unfolding level_inv_def by blast
  qed
next
  fix c :: "string list" assume "c \<in> {}"
  then show "c \<in> set (map plan_subset (all_plans st)) \<longleftrightarrow> admits h g (dp_table st) c" by simp
qed

lemma enumerate_level_level_inv:
  assumes "level_inv h g tables m {} st"
    and "sorted tables" "distinct tables" "list_all pipe_free tables"
  shows "level_inv h g tables (Suc m) {} (fst (enumerate_level h g (Suc m) tables st))"
proof -
  have "level_inv h g tables m ({} \<union> set (combinations tables (Suc m)))
          (fst (foldl (enumerate_candidate h g (Suc m)) (st, 0, 0, 0) (combinations tables (Suc m))))"
    using assms by (intro enumerate_candidates_level_inv) simp_all
  then show ?thesis by (simp add: enumerate_level_def level_inv_next)
qed

lemma enumerate_levels_level_inv:
  assumes "sorted tables" "distinct tables" "list_all pipe_free tables"
  shows "level_inv h g tables m {} st \<Longrightarrow>
         level_inv h g tables (m + n) {} (enumerate_levels h g tables [Suc m ..< Suc (m + n)] st)"
proof (induction n arbitrary: m st)
  case 0
  then show ?case by simp
next
  case (Suc n)
  obtain st' checked added skipped where lv:
    "enumerate_level h g (Suc m) tables st = (st', checked, added, skipped)"
    by (metis prod_cases4)
  have "level_inv h g tables (Suc m) {} st'"
    using enumerate_level_level_inv [OF Suc.prems assms] lv by simp
  then have "level_inv h g tables (Suc m) {} (st'\<lparr>counts := dict_set (Suc m) added (counts st')\<rparr>)"
    by simp
  from Suc.IH [OF this]
  have "level_inv h g tables (Suc m + n) {}
          (enumerate_levels h g tables [Suc (Suc m) ..< Suc (Suc m + n)]
             (st'\<lparr>counts := dict_set (Suc m) added (counts st')\<rparr>))" .
  moreover have "[Suc m ..< Suc (m + Suc n)] = Suc m # [Suc (Suc m) ..< Suc (Suc m + n)]"
    by (simp add: upt_conv_Cons)
  ultimately show ?case by (simp add: lv)
qed

lemma level_range_upt: "level_range n = [Suc 0 ..< Suc (0 + nat n)]"
proof -
  have "map nat [1 .. int k] = [Suc 0 ..< Suc k]" for k
  proof (induction k)
    case 0
    then show ?case by simp
  next
    case (Suc k)
    have "[1 .. int (Suc k)] = [1 .. int k] @ [int (Suc k)]"
      by (simp add: upto_rec2)
    with Suc show ?case by simp
  qed
  from this [of "nat n"] show ?thesis
    by (cases "0 \<le> n") (simp_all add: level_range_def)
qed

lemma enumerate_subsets_level_inv:
  assumes "distinct tables" and "list_all pipe_free tables"
  shows "level_inv h g (sort tables) (nat (min max_level (int (length tables)))) {}
           (enumerate_subsets h g tables max_level)"
proof -
  let ?b = "min max_level (int (length tables))"
  have t: "sorted (sort tables)" "distinct (sort tables)" "list_all pipe_free (sort tables)"
    using assms by (simp_all add: list_all_iff)
  have "level_inv h g (sort tables) 0 {} \<lparr>dp_table = [], all_plans = [], counts = []\<rparr>"
    by (simp add: level_inv_def)
  from enumerate_levels_level_inv [OF t this, of "nat ?b"]
  have "level_inv h g (sort tables) (nat ?b) {}
          (enumerate_levels h g (sort tables) [Suc 0 ..< Suc (0 + nat ?b)]
             \<lparr>dp_table = [], all_plans = [], counts = []\<rparr>)"
    by simp
  then show ?thesis
    unfolding enumerate_subsets_def Let_def level_range_upt length_sort .
qed

lemma level_range_member: "k \<in> set (level_range n) \<longleftrightarrow> 1 \<le> k \<and> k \<le> nat n"
  unfolding level_range_upt by auto

lemma enumerate_subsets_considers:
  assumes "distinct tables" and "list_all pipe_free tables"
  shows "c \<in> set (map plan_subset (all_plans (enumerate_subsets h g tables max_level))) \<longleftrightarrow>
         list_ex (\<lambda>k. c \<in> set (combinations (sort tables) k))
           (level_range (min max_level (int (length tables)))) \<and>
         admits h g (dp_table (enumerate_subsets h g tables max_level)) c"
  using enumerate_subsets_level_inv [OF assms, of h g max_level]
  unfolding level_inv_def list_ex_iff Bex_def level_range_member
  by blast

text \<open>
  Claim C9, as amended. For a query processed by the driver with \<open>--max-level K\<close>, the
  enumeration runs over the levels \<open>1 \<dots> min(K, 20, |T|)\<close>, in this order (they are the
  keys of the count map), and no emitted subset has more relations than that bound: the
  driver passes \<open>min(K, 20)\<close> to the enumerator, which caps it by the number of relations.
  Every subset of each of these cardinalities is considered: when the relation list has
  no repetition and no name with a vertical bar, a subset is emitted exactly when it is a
  combination of \<open>k\<close> relations of the sorted list, for a level \<open>k\<close> of that range, that
  passes the admission test (it is connected and, unless it is a singleton, has a valid
  decomposition over the keys of the table).
\<close>

theorem process_query_levels_capped:
  "map fst (counts (process_query_enumeration h parsed max_level_arg))
     = level_range (min (min max_level_arg 20) (int (length (ps_tables parsed)))) \<and>
   plans_within (nat (min (min max_level_arg 20) (int (length (ps_tables parsed)))))
     (process_query_enumeration h parsed max_level_arg) \<and>
   (distinct (ps_tables parsed) \<longrightarrow> list_all pipe_free (ps_tables parsed) \<longrightarrow>
      (c \<in> set (map plan_subset (all_plans (process_query_enumeration h parsed max_level_arg)))
         \<longleftrightarrow>
       list_ex (\<lambda>k. c \<in> set (combinations (sort (ps_tables parsed)) k))
         (level_range (min (min max_level_arg 20) (int (length (ps_tables parsed))))) \<and>
       admits h (ps_join_graph parsed)
         (dp_table (process_query_enumeration h parsed max_level_arg)) c))"
  using enumerate_subsets_within [of "min max_level_arg 20" "ps_tables parsed" h "ps_join_graph parsed"]
    enumerate_subsets_considers [of "ps_tables parsed" c h "ps_join_graph parsed" "min max_level_arg 20"]
  by (simp add: enumerate_subsets_levels process_query_enumeration_def)

theorem process_query_levels_capped_witness:
  "distinct (ps_tables ex1_parsed) \<and> list_all pipe_free (ps_tables ex1_parsed) \<and>
   list_ex (\<lambda>k. [''A'', ''B''] \<in> set (combinations (sort (ps_tables ex1_parsed)) k))
     (level_range (min (min 20 20) (int (length (ps_tables ex1_parsed))))) \<and>
   admits sorted_iter (ps_join_graph ex1_parsed)
     (dp_table (process_query_enumeration sorted_iter ex1_parsed 20)) [''A'', ''B''] \<and>
   [''A'', ''B''] \<in> set (map plan_subset
      (all_plans (process_query_enumeration sorted_iter ex1_parsed 20)))"
proof -
  have d: "distinct (ps_tables ex1_parsed)" by code_simp
  have p: "list_all pipe_free (ps_tables ex1_parsed)" by code_simp
  have k: "list_ex (\<lambda>k. [''A'', ''B''] \<in> set (combinations (sort (ps_tables ex1_parsed)) k))
             (level_range (min (min 20 20) (int (length (ps_tables ex1_parsed)))))"
    by code_simp
  have a: "admits sorted_iter (ps_join_graph ex1_parsed)
             (dp_table (process_query_enumeration sorted_iter ex1_parsed 20)) [''A'', ''B'']"
    by code_simp
  from process_query_levels_capped [of sorted_iter ex1_parsed 20 "[''A'', ''B'']"] d p k a
  have "[''A'', ''B''] \<in> set (map plan_subset
          (all_plans (process_query_enumeration sorted_iter ex1_parsed 20)))"
    by blast
  with d p k a show ?thesis by blast
qed

text \<open>
  The claim as stated (levels up to \<open>min(K, |T|)\<close>) fails for \<open>K = 25\<close> on a query with 21
  relations: the levels run are \<open>1 \<dots> 20\<close>, and level 21 is never enumerated.
\<close>

definition ex9_parsed :: ParsedSQL where
  "ex9_parsed =
     \<lparr>ps_tables = [''t01'', ''t02'', ''t03'', ''t04'', ''t05'', ''t06'', ''t07'', ''t08'', ''t09'',
                   ''t10'', ''t11'', ''t12'', ''t13'', ''t14'', ''t15'', ''t16'', ''t17'', ''t18'',
                   ''t19'', ''t20'', ''t21''],
      ps_aliases = [], ps_join_graph = empty_graph, ps_classifier = empty_classifier\<rparr>"

theorem levels_beyond_twenty_counterexample:
  "min 25 (int (length (ps_tables ex9_parsed))) = 21 \<and>
   map fst (counts (process_query_enumeration sorted_iter ex9_parsed 25)) = level_range 20 \<and>
   level_range 20 \<noteq> level_range 21"
proof (intro conjI)
  show "min 25 (int (length (ps_tables ex9_parsed))) = 21"
    by (simp add: ex9_parsed_def)
  then show "map fst (counts (process_query_enumeration sorted_iter ex9_parsed 25))
               = level_range 20"
    by (simp add: process_query_levels ex9_parsed_def)
  have lens: "length (level_range 20) = 20" "length (level_range 21) = 21"
    by (simp_all add: level_range_def)
  show "level_range 20 \<noteq> level_range 21"
  proof
    assume "level_range 20 = level_range 21"
    then have "length (level_range 20) = length (level_range 21)" by simp
    with lens show False by simp
  qed
qed


section \<open>Soundness of the derived details\<close>

text \<open>
  An interpretation gives every qualified column \<open>(relation, column)\<close> a value. A detail,
  or a join condition, holds under it when its two columns have the same value; a
  constant-value fact holds when its column has the value the constant denotes.
\<close>

definition detail_holds :: "(string \<times> string \<Rightarrow> 'v) \<Rightarrow> JoinDetail \<Rightarrow> bool" where
  "detail_holds v detail \<longleftrightarrow>
     v (jd_t1 detail, jd_t1_col detail) = v (jd_t2 detail, jd_t2_col detail)"

definition condition_holds :: "(string \<times> string \<Rightarrow> 'v) \<Rightarrow> JoinCondition \<Rightarrow> bool" where
  "condition_holds v join_cond \<longleftrightarrow>
     v (left_table join_cond, left_column join_cond)
       = v (right_table join_cond, right_column join_cond)"

definition fact_holds :: "(string \<times> string \<Rightarrow> 'v) \<Rightarrow> (string \<Rightarrow> 'v) \<Rightarrow> ConstantValue \<Rightarrow> bool" where
  "fact_holds v k const_val \<longleftrightarrow>
     v (cv_table const_val, cv_column const_val) = k (cv_value const_val)"

definition graph_sound :: "(string \<times> string \<Rightarrow> 'v) \<Rightarrow> JoinGraph \<Rightarrow> bool" where
  "graph_sound v g = list_all (detail_holds v) (all_details g)"

lemma map_of_in_concat:
  "map_of kvs k = Some ds \<Longrightarrow> x \<in> set ds \<Longrightarrow> x \<in> set (concat (map snd kvs))"
proof (induction kvs)
  case Nil
  then show ?case by simp
next
  case (Cons kv kvs)
  show ?case
  proof (cases "fst kv = k")
    case True
    with Cons.prems show ?thesis by (cases kv) auto
  next
    case False
    with Cons show ?thesis by (cases kv) auto
  qed
qed

lemma dict_set_concat:
  "x \<in> set (concat (map snd (dict_set k ds kvs))) \<Longrightarrow>
   x \<in> set (concat (map snd kvs)) \<or> x \<in> set ds"
proof (induction kvs)
  case Nil
  then show ?case by simp
next
  case (Cons kv kvs)
  obtain k' v' where kv: "kv = (k', v')" by (cases kv)
  show ?case
  proof (cases "k = k'")
    case True
    with Cons.prems kv show ?thesis by auto
  next
    case False
    with Cons.prems kv have "x \<in> set v' \<or> x \<in> set (concat (map snd (dict_set k ds kvs)))"
      by auto
    with Cons.IH kv show ?thesis by auto
  qed
qed

lemma details_at_subset: "x \<in> set (details_at g k) \<Longrightarrow> x \<in> set (all_details g)"
  unfolding details_at_def all_details_def
  using map_of_in_concat [of "join_details g" k]
  by (cases "map_of (join_details g) k") auto

definition normalized_detail ::
  "string \<Rightarrow> string \<Rightarrow> string \<Rightarrow> string \<Rightarrow> bool \<Rightarrow> JoinDetail" where
  "normalized_detail ta tb ca cb orig =
     JoinDetail (if tb < ta then tb else ta)
       (if (if tb < ta then tb else ta) = ta then ca else cb)
       (if tb < ta then ta else tb)
       (if (if tb < ta then ta else tb) = tb then cb else ca) orig"

lemma add_join_details:
  assumes "x \<in> set (all_details (add_join g ta tb ca cb orig))"
  shows "x \<in> set (all_details g) \<or> x = normalized_detail ta tb ca cb orig"
proof (cases "ca \<noteq> [] \<and> cb \<noteq> []")
  case False
  with assms show ?thesis by (auto simp: add_join_def Let_def all_details_def)
next
  case True
  let ?k = "canonical_key [ta, tb]"
  let ?g1 = "g\<lparr>edges := List.insert ?k (edges g)\<rparr>"
  have d: "details_at ?g1 ?k = details_at g ?k" by (simp add: details_at_def)
  from True assms have
    "x \<in> set (concat (map snd (dict_set ?k
            (details_at g ?k @ [normalized_detail ta tb ca cb orig]) (join_details g))))"
    by (simp add: add_join_def Let_def all_details_def d normalized_detail_def)
  from dict_set_concat [OF this]
  have "x \<in> set (all_details g) \<or> x \<in> set (details_at g ?k) \<or>
        x = normalized_detail ta tb ca cb orig"
    by (auto simp: all_details_def)
  then show ?thesis using details_at_subset by blast
qed

lemma add_join_sound:
  assumes "graph_sound v g" and "v (ta, ca) = v (tb, cb)"
  shows "graph_sound v (add_join g ta tb ca cb orig)"
proof -
  have "detail_holds v d" if "d \<in> set (all_details (add_join g ta tb ca cb orig))" for d
  proof -
    from add_join_details [OF that]
    show ?thesis
    proof
      assume "d \<in> set (all_details g)"
      with assms(1) show ?thesis by (simp add: graph_sound_def list_all_iff)
    next
      assume "d = normalized_detail ta tb ca cb orig"
      with assms(2) show ?thesis by (auto simp: detail_holds_def normalized_detail_def)
    qed
  qed
  then show ?thesis by (simp add: graph_sound_def list_all_iff)
qed

lemma try_form_transitive_join_sound:
  assumes "detail_holds v d1" and "detail_holds v d2"
    and "try_form_transitive_join d1 d2 = Some tr"
  shows "v (tj_t1 tr, tj_t1_col tr) = v (tj_t2 tr, tj_t2_col tr)"
  using assms
  by (auto simp: try_form_transitive_join_def detail_holds_def split: if_splits)

lemma closure_step_sound:
  assumes "graph_sound v (fst s)" and "detail_holds v d1" and "detail_holds v d2"
  shows "graph_sound v (fst (closure_step d1 d2 s))"
proof (cases s)
  case (fields g added_count found_new)
  show ?thesis
  proof (cases "try_form_transitive_join d1 d2")
    case None
    with assms(1) show ?thesis by (simp add: closure_step_def fields)
  next
    case (Some tr)
    from try_form_transitive_join_sound [OF assms(2,3) Some]
    have "graph_sound v (add_join g (tj_t1 tr) (tj_t2 tr) (tj_t1_col tr) (tj_t2_col tr) False)"
      using add_join_sound assms(1) fields by simp
    with assms(1) Some show ?thesis by (simp add: closure_step_def fields)
  qed
qed

lemma graph_sound_nth:
  "graph_sound v g \<Longrightarrow> j < length (details_at g k) \<Longrightarrow> detail_holds v (details_at g k ! j)"
  using details_at_subset [of "details_at g k ! j" g k]
  by (auto simp: graph_sound_def list_all_iff)

lemma loop_d2_sound:
  assumes "loop_d2 d1 k2 j s = Some s'" and "graph_sound v (fst s)" and "detail_holds v d1"
  shows "graph_sound v (fst s')"
proof -
  have "graph_sound v (fst s) \<longrightarrow> detail_holds v d1 \<longrightarrow> graph_sound v (fst s')"
  proof (rule loop_d2.raw_induct
           [where P = "\<lambda>d1 k2 j s s'. graph_sound v (fst s) \<longrightarrow> detail_holds v d1
                          \<longrightarrow> graph_sound v (fst s')", OF _ assms(1)], goal_cases)
    case (1 f d1 k2 j s s')
    show ?case
    proof (intro impI)
      assume gs: "graph_sound v (fst s)" and dh: "detail_holds v d1"
      show "graph_sound v (fst s')"
      proof (cases "j < length (details_at (fst s) k2)")
        case True
        with 1(2) have rec:
          "f d1 k2 (Suc j) (closure_step d1 (details_at (fst s) k2 ! j) s) = Some s'"
          by simp
        have "graph_sound v (fst (closure_step d1 (details_at (fst s) k2 ! j) s))"
          using closure_step_sound gs dh graph_sound_nth [OF gs True] by blast
        with 1(1) [OF rec] dh show ?thesis by blast
      next
        case False
        with 1(2) gs show ?thesis by simp
      qed
    qed
  qed
  with assms show ?thesis by blast
qed

lemma loop_d1_sound:
  assumes "loop_d1 k1 k2 i s = Some s'" and "graph_sound v (fst s)"
  shows "graph_sound v (fst s')"
proof -
  have "graph_sound v (fst s) \<longrightarrow> graph_sound v (fst s')"
  proof (rule loop_d1.raw_induct
           [where P = "\<lambda>k1 k2 i s s'. graph_sound v (fst s) \<longrightarrow> graph_sound v (fst s')",
            OF _ assms(1)], goal_cases)
    case (1 f k1 k2 i s s')
    show ?case
    proof (intro impI)
      assume gs: "graph_sound v (fst s)"
      show "graph_sound v (fst s')"
      proof (cases "i < length (details_at (fst s) k1)")
        case True
        with 1(2) obtain s1 where
          inner: "loop_d2 (details_at (fst s) k1 ! i) k2 0 s = Some s1"
          and rec: "f k1 k2 (Suc i) s1 = Some s'"
          by (auto split: option.splits)
        have "graph_sound v (fst s1)"
          using loop_d2_sound [OF inner gs] graph_sound_nth [OF gs True] by blast
        with 1(1) [OF rec] show ?thesis by blast
      next
        case False
        with 1(2) gs show ?thesis by simp
      qed
    qed
  qed
  with assms show ?thesis by blast
qed

lemma loop_edge2_sound:
  "loop_edge2 k1 ks s = Some s' \<Longrightarrow> graph_sound v (fst s) \<Longrightarrow> graph_sound v (fst s')"
proof (induction ks arbitrary: s)
  case Nil
  then show ?case by simp
next
  case (Cons k2 ks)
  show ?case
  proof (cases "k1 = k2")
    case True
    with Cons show ?thesis by simp
  next
    case False
    with Cons.prems(1) obtain s1 where a: "loop_d1 k1 k2 0 s = Some s1"
      and b: "loop_edge2 k1 ks s1 = Some s'"
      by (auto split: option.splits)
    from Cons.IH [OF b loop_d1_sound [OF a Cons.prems(2)]] show ?thesis .
  qed
qed

lemma loop_edge1_sound:
  "loop_edge1 ks current s = Some s' \<Longrightarrow> graph_sound v (fst s) \<Longrightarrow> graph_sound v (fst s')"
proof (induction ks arbitrary: s)
  case Nil
  then show ?case by simp
next
  case (Cons k1 ks)
  from Cons.prems(1) obtain s1 where a: "loop_edge2 k1 current s = Some s1"
    and b: "loop_edge1 ks current s1 = Some s'"
    by (auto split: option.splits)
  from Cons.IH [OF b loop_edge2_sound [OF a Cons.prems(2)]] show ?case .
qed

lemma closure_iterate_sound:
  "closure_iterate n g added = Some (g', added') \<Longrightarrow> graph_sound v g \<Longrightarrow> graph_sound v g'"
proof (induction n arbitrary: g added)
  case 0
  then show ?case by simp
next
  case (Suc n)
  from Suc.prems(1) obtain g1 added1 found where
    pass: "closure_pass g added = Some (g1, added1, found)"
    by (auto split: option.splits)
  have s1: "graph_sound v g1"
    using loop_edge1_sound [OF pass [unfolded closure_pass_def Let_def]] Suc.prems(2) by simp
  show ?case
  proof (cases found)
    case True
    with Suc.prems(1) pass have "closure_iterate n g1 added1 = Some (g', added')" by simp
    from Suc.IH [OF this s1] show ?thesis .
  next
    case False
    with Suc.prems(1) pass s1 show ?thesis by simp
  qed
qed

lemma compute_transitive_closure_sound:
  "compute_transitive_closure g = Some (g', added) \<Longrightarrow> graph_sound v g \<Longrightarrow> graph_sound v g'"
  unfolding compute_transitive_closure_def by (rule closure_iterate_sound)

lemma build_equivalence_classes_details:
  "build_equivalence_classes g = Some g' \<Longrightarrow> join_details g' = join_details g"
  by (auto simp: build_equivalence_classes_def split: option.splits)


subsection \<open>The columns the patterns capture\<close>

fun closes :: "rx \<Rightarrow> nat list" where
  "closes (Close i) = [i]"
| "closes (Alt a b) = concat (map closes a) @ concat (map closes b)"
| "closes _ = []"

lemma first_some_map:
  "first_some (map f ks) = Some res \<Longrightarrow> \<exists>k \<in> set ks. f k = Some res"
proof (induction ks)
  case Nil
  then show ?case by simp
next
  case (Cons k ks)
  then show ?case by (cases "f k") auto
qed

lemma rx_match_keeps_group:
  "rx_match ic subj rs pos opens spans = Some (e, sp) \<Longrightarrow>
   i \<notin> set (concat (map closes rs)) \<Longrightarrow> map_of sp i = map_of spans i"
proof (induction ic subj rs pos opens spans arbitrary: e sp rule: rx_match.induct)
  case (1 ic subj pos opens spans)
  then show ?case by simp
next
  case (2 ic subj w rs pos opens spans)
  then show ?case by (auto simp: Let_def split: if_splits)
next
  case (3 ic subj P rs pos opens spans)
  then show ?case by (auto split: if_splits)
next
  case (4 ic subj P n greedy rs pos opens spans)
  let ?avail = "length (takeWhile P (drop pos subj))"
  let ?ks = "if greedy then rev [n ..< Suc ?avail] else [n ..< Suc ?avail]"
  from "4.prems"(1) have
    "first_some (map (\<lambda>k. rx_match ic subj rs (pos + k) opens spans) ?ks) = Some (e, sp)"
    by (simp add: Let_def)
  from first_some_map [OF this] obtain k where k: "k \<in> set ?ks"
    and m: "rx_match ic subj rs (pos + k) opens spans = Some (e, sp)"
    by blast
  from "4.IH" [OF refl refl k m] "4.prems"(2) show ?case by simp
next
  case (5 ic subj i rs pos opens spans)
  then show ?case by simp
next
  case (6 ic subj j rs pos opens spans)
  then show ?case by (auto split: option.splits)
next
  case (7 ic subj a b rs pos opens spans)
  show ?case
  proof (cases "rx_match ic subj (a @ rs) pos opens spans")
    case None
    with "7.prems"(1) have "rx_match ic subj (b @ rs) pos opens spans = Some (e, sp)" by simp
    from "7.IH"(2) [OF None this] "7.prems"(2) show ?thesis by simp
  next
    case (Some res)
    with "7.prems"(1) have "rx_match ic subj (a @ rs) pos opens spans = Some (e, sp)" by simp
    from "7.IH"(1) [OF this] "7.prems"(2) show ?thesis by simp
  qed
next
  case (8 ic subj rs pos opens spans)
  then show ?case by (auto split: if_splits)
next
  case (9 ic subj rs pos opens spans)
  then show ?case by (auto split: if_splits)
qed

text \<open>
  Both patterns start with \<open>(\w+)\.(\w+)\<close> and close the second group nowhere else:
  the second group is a run of word characters.
\<close>

definition rx_column_head :: "rx list" where
  "rx_column_head =
     [Open 1, Rep is_word 1 True, Close 1, Lit ''.'', Open 2, Rep is_word 1 True, Close 2]"

lemma take_takeWhile_all:
  "k \<le> length (takeWhile P xs) \<Longrightarrow> list_all P (take k xs)"
proof (induction xs arbitrary: k)
  case Nil
  then show ?case by simp
next
  case (Cons x xs)
  then show ?case by (cases k) (auto split: if_splits)
qed


lemma column_head_group:
  assumes "rx_match ic subj (rx_column_head @ rest) pos [] [] = Some (e, sp)"
    and "2 \<notin> set (concat (map closes rest))"
  shows "list_all is_word (rx_group subj sp 2)"
proof -
  let ?r1 = "[Close 1, Lit ''.'', Open 2, Rep is_word 1 True, Close 2] @ rest"
  from assms(1) have
    "first_some (map (\<lambda>k. rx_match ic subj ?r1 (pos + k) [(1, pos)] [])
       (rev [1 ..< Suc (length (takeWhile is_word (drop pos subj)))])) = Some (e, sp)"
    by (simp add: rx_column_head_def Let_def)
  from first_some_map [OF this] obtain k1 where
    m1: "rx_match ic subj ?r1 (pos + k1) [(1, pos)] [] = Some (e, sp)"
    by blast
  let ?p2 = "pos + k1 + length ''.''"
  let ?r2 = "Close 2 # rest"
  from m1 have
    "first_some (map (\<lambda>k. rx_match ic subj ?r2 (?p2 + k) [(2, ?p2), (1, pos)]
                             [(1, pos, pos + k1)])
       (rev [1 ..< Suc (length (takeWhile is_word (drop ?p2 subj)))])) = Some (e, sp)"
    by (simp add: Let_def split: if_splits)
  from first_some_map [OF this] obtain k2 where
    k2: "k2 \<in> set (rev [1 ..< Suc (length (takeWhile is_word (drop ?p2 subj)))])"
    and m2: "rx_match ic subj ?r2 (?p2 + k2) [(2, ?p2), (1, pos)] [(1, pos, pos + k1)]
               = Some (e, sp)"
    by blast
  from m2 have
    "rx_match ic subj rest (?p2 + k2) [(2, ?p2), (1, pos)]
       [(2, ?p2, ?p2 + k2), (1, pos, pos + k1)] = Some (e, sp)"
    by simp
  from rx_match_keeps_group [OF this assms(2)]
  have "map_of sp 2 = Some (?p2, ?p2 + k2)" by simp
  then have "rx_group subj sp 2 = take k2 (drop ?p2 subj)"
    by (simp add: rx_group_def)
  moreover have "k2 \<le> length (takeWhile is_word (drop ?p2 subj))"
    using k2 by auto
  ultimately show ?thesis by (simp add: take_takeWhile_all)
qed


lemma rx_search_column:
  assumes "rx_search ic (rx_column_head @ rest) subj = Some (e, sp)"
    and "2 \<notin> set (concat (map closes rest))"
  shows "list_all is_word (rx_group subj sp 2)"
proof -
  from first_some_map [OF assms(1) [unfolded rx_search_def]] obtain start where
    "rx_match ic subj (rx_column_head @ rest) start [] [] = Some (e, sp)"
    by blast
  from column_head_group [OF this assms(2)] show ?thesis .
qed


lemma extract_column_word:
  assumes "extract_single_constant_value predicate = Some const_val"
  shows "list_all is_word (cv_column const_val)"
proof (cases "rx_search True rx_eq predicate")
  case (Some res)
  obtain e sp where res: "res = (e, sp)" by (cases res)
  have "rx_eq = rx_column_head @ drop 7 rx_eq"
    by (simp add: rx_eq_def rx_column_head_def)
  moreover have "2 \<notin> set (concat (map closes (drop 7 rx_eq)))"
    by (simp add: rx_eq_def)
  ultimately have "list_all is_word (rx_group predicate sp 2)"
    using rx_search_column [of True "drop 7 rx_eq" predicate e sp] Some res by simp
  with assms Some res show ?thesis
    by (auto simp: extract_single_constant_value_def)
next
  case None
  with assms obtain e sp where s2: "rx_search True rx_in predicate = Some (e, sp)"
    and cv: "cv_column const_val = rx_group predicate sp 2"
    by (auto simp: extract_single_constant_value_def Let_def split: option.splits list.splits)
  have "rx_in = rx_column_head @ drop 7 rx_in"
    by (simp add: rx_in_def rx_column_head_def)
  moreover have "2 \<notin> set (concat (map closes (drop 7 rx_in)))"
    by (simp add: rx_in_def)
  ultimately have "list_all is_word (rx_group predicate sp 2)"
    using rx_search_column [of True "drop 7 rx_in" predicate e sp] s2 by simp
  with cv show ?thesis by simp
qed


subsection \<open>Constant-equality joins\<close>

lemma colon_not_word: "list_all is_word c \<Longrightarrow> CHR '':'' \<notin> set c"
  by (induction c) (auto simp: is_word_def)

lemma takeWhile_colon:
  "CHR '':'' \<notin> set c \<Longrightarrow> takeWhile (\<lambda>x. x \<noteq> CHR '':'') (c @ CHR '':'' # rest) = c"
  by (induction c) auto

lemma group_key_inj:
  assumes "list_all is_word (cv_column a)" and "list_all is_word (cv_column b)"
    and "group_key a = group_key b"
  shows "cv_column a = cv_column b \<and> cv_value a = cv_value b"
proof -
  have "takeWhile (\<lambda>x. x \<noteq> CHR '':'') (group_key a) = cv_column a"
       "takeWhile (\<lambda>x. x \<noteq> CHR '':'') (group_key b) = cv_column b"
    using assms(1,2) by (simp_all add: group_key_def takeWhile_colon colon_not_word)
  with assms(3) have "cv_column a = cv_column b" by simp
  with assms(3) show ?thesis by (simp add: group_key_def)
qed

text \<open>
  The constant-value facts of a query: what \<open>_extract_single_constant_value\<close> returns on
  the selections of each relation, in the order \<open>_detect_constant_equality_joins\<close> scans.
\<close>

fun table_facts :: "PredicateClassifier \<Rightarrow> string list \<Rightarrow> ConstantValue list option" where
  "table_facts cl [] = Some []"
| "table_facts cl (table # tables) =
     (case get_predicates_for_subset cl [table] of
        None \<Rightarrow> None
      | Some predicates \<Rightarrow>
          (case table_facts cl tables of
             None \<Rightarrow> None
           | Some facts \<Rightarrow>
               Some (List.map_filter extract_single_constant_value (selections predicates)
                       @ facts)))"

text \<open>Every member of every group is a fact that holds, filed under its own key.\<close>

definition groups_ok ::
  "(string \<times> string \<Rightarrow> 'v) \<Rightarrow> (string \<Rightarrow> 'v) \<Rightarrow> (string \<times> ConstantValue list) list \<Rightarrow> bool" where
  "groups_ok v k groups \<longleftrightarrow>
     (\<forall>key grp cv. (key, grp) \<in> set groups \<longrightarrow> cv \<in> set grp \<longrightarrow>
        fact_holds v k cv \<and> group_key cv = key \<and> list_all is_word (cv_column cv))"

lemma map_of_member: "map_of kvs key = Some x \<Longrightarrow> (key, x) \<in> set kvs"
  by (rule map_of_SomeD)

lemma dict_set_member:
  "(key, x) \<in> set (dict_set k y kvs) \<Longrightarrow> (key, x) \<in> set kvs \<or> (key = k \<and> x = y)"
proof (induction kvs)
  case Nil
  then show ?case by simp
next
  case (Cons kv kvs)
  obtain k' v' where kv: "kv = (k', v')" by (cases kv)
  show ?case
  proof (cases "k = k'")
    case True
    with Cons.prems kv show ?thesis by auto
  next
    case False
    with Cons kv show ?thesis by auto
  qed
qed

lemma group_selections_ok:
  "groups_ok v k groups \<Longrightarrow>
   list_all (fact_holds v k) (List.map_filter extract_single_constant_value preds) \<Longrightarrow>
   groups_ok v k (group_selections preds groups)"
proof (induction preds arbitrary: groups)
  case Nil
  then show ?case by simp
next
  case (Cons pred preds)
  show ?case
  proof (cases "extract_single_constant_value pred")
    case None
    with Cons show ?thesis by (simp add: map_filter_simps)
  next
    case (Some const_val)
    let ?key = "group_key const_val"
    let ?old = "case map_of groups ?key of None \<Rightarrow> [] | Some cvs \<Rightarrow> cvs"
    let ?groups = "dict_set ?key (?old @ [const_val]) groups"
    have holds: "fact_holds v k const_val"
      and rest: "list_all (fact_holds v k) (List.map_filter extract_single_constant_value preds)"
      using Cons.prems(2) Some by (simp_all add: map_filter_simps)
    have word: "list_all is_word (cv_column const_val)"
      using extract_column_word [OF Some] .
    have old: "fact_holds v k cv \<and> group_key cv = ?key \<and> list_all is_word (cv_column cv)"
      if "cv \<in> set ?old" for cv
    proof (cases "map_of groups ?key")
      case None
      with that show ?thesis by simp
    next
      case (Some cvs)
      with that have "(?key, cvs) \<in> set groups" "cv \<in> set cvs"
        by (simp_all add: map_of_member)
      with Cons.prems(1) show ?thesis unfolding groups_ok_def by blast
    qed
    have "groups_ok v k ?groups"
      unfolding groups_ok_def
    proof (intro allI impI)
      fix key grp cv
      assume mem: "(key, grp) \<in> set ?groups" and cv: "cv \<in> set grp"
      from dict_set_member [OF mem]
      show "fact_holds v k cv \<and> group_key cv = key \<and> list_all is_word (cv_column cv)"
      proof
        assume "(key, grp) \<in> set groups"
        with Cons.prems(1) cv show ?thesis unfolding groups_ok_def by blast
      next
        assume new: "key = ?key \<and> grp = ?old @ [const_val]"
        with cv have "cv \<in> set ?old \<or> cv = const_val" by auto
        then show ?thesis using old holds word new by blast
      qed
    qed
    from Cons.IH [OF this rest] Some show ?thesis by simp
  qed
qed

lemma group_tables_ok:
  "group_tables cl tables groups = Some groups' \<Longrightarrow> table_facts cl tables = Some facts \<Longrightarrow>
   list_all (fact_holds v k) facts \<Longrightarrow> groups_ok v k groups \<Longrightarrow> groups_ok v k groups'"
proof (induction tables arbitrary: groups facts)
  case Nil
  then show ?case by simp
next
  case (Cons table tables)
  from Cons.prems(1) obtain predicates where
    p: "get_predicates_for_subset cl [table] = Some predicates"
    and g: "group_tables cl tables (group_selections (selections predicates) groups) = Some groups'"
    by (auto split: option.splits)
  from Cons.prems(2) p obtain facts' where
    f: "table_facts cl tables = Some facts'"
    and fs: "facts = List.map_filter extract_single_constant_value (selections predicates) @ facts'"
    by (auto split: option.splits)
  from Cons.prems(3) fs have
    a: "list_all (fact_holds v k)
          (List.map_filter extract_single_constant_value (selections predicates))"
    and b: "list_all (fact_holds v k) facts'"
    by simp_all
  from Cons.IH [OF g f b group_selections_ok [OF Cons.prems(4) a]] show ?case .
qed

lemma index_pairs_member:
  "(a, b) \<in> set (index_pairs xs) \<Longrightarrow> a \<in> set xs \<and> b \<in> set xs"
  by (induction xs) auto

definition constant_join_holds :: "(string \<times> string \<Rightarrow> 'v) \<Rightarrow> ConstantEqualityJoin \<Rightarrow> bool" where
  "constant_join_holds v const_join \<longleftrightarrow>
     v (cej_t1 const_join, cej_column const_join) = v (cej_t2 const_join, cej_column const_join)"

lemma group_joins_hold:
  assumes "groups_ok v k groups" and "(key, grp) \<in> set groups"
    and "const_join \<in> set (group_joins grp)"
  shows "constant_join_holds v const_join"
proof -
  from assms(3) obtain gi gj where pair: "(gi, gj) \<in> set (index_pairs grp)"
    and cj: "const_join = ConstantEqualityJoin (cv_table gi) (cv_table gj) (cv_column gi)"
    by (auto simp: group_joins_def split: if_splits)
  from index_pairs_member [OF pair] have mem: "gi \<in> set grp" "gj \<in> set grp" by simp_all
  from assms(1,2) mem have
    hi: "fact_holds v k gi" "group_key gi = key" "list_all is_word (cv_column gi)"
    and hj: "fact_holds v k gj" "group_key gj = key" "list_all is_word (cv_column gj)"
    unfolding groups_ok_def by blast+
  from group_key_inj [OF hi(3) hj(3)] hi(2) hj(2)
  have "cv_column gi = cv_column gj" "cv_value gi = cv_value gj" by simp_all
  with hi(1) hj(1) show ?thesis
    by (simp add: constant_join_holds_def cj fact_holds_def)
qed

lemma detect_constant_equality_joins_hold:
  assumes "detect_constant_equality_joins cl tables = Some constant_joins"
    and "table_facts cl tables = Some facts" and "list_all (fact_holds v k) facts"
  shows "list_all (constant_join_holds v) constant_joins"
proof -
  from assms(1) obtain groups where g: "group_tables cl tables [] = Some groups"
    and cj: "constant_joins = concat (map (\<lambda>(key, grp). group_joins grp) groups)"
    by (auto simp: detect_constant_equality_joins_def split: option.splits)
  have "groups_ok v k []" by (simp add: groups_ok_def)
  from group_tables_ok [OF g assms(2,3) this] have ok: "groups_ok v k groups" .
  show ?thesis
    unfolding cj list_all_iff
    using group_joins_hold [OF ok] by auto
qed

lemma add_join_conditions_sound:
  "graph_sound v g \<Longrightarrow> list_all (condition_holds v) join_conditions \<Longrightarrow>
   graph_sound v (add_join_conditions join_conditions g)"
  unfolding add_join_conditions_def
proof (induction join_conditions arbitrary: g)
  case Nil
  then show ?case by simp
next
  case (Cons join_cond join_conditions)
  then show ?case by (simp add: add_join_sound condition_holds_def)
qed

lemma add_constant_joins_sound:
  "graph_sound v g \<Longrightarrow> list_all (constant_join_holds v) constant_joins \<Longrightarrow>
   graph_sound v (add_constant_joins constant_joins g)"
  unfolding add_constant_joins_def
proof (induction constant_joins arbitrary: g)
  case Nil
  then show ?case by simp
next
  case (Cons const_join constant_joins)
  then show ?case by (simp add: add_join_sound constant_join_holds_def)
qed

lemma build_phase_sound:
  assumes "parse_sql_build tables aliases join_conditions predicates = Some parsed"
    and "list_all (condition_holds v) join_conditions"
    and "table_facts (ps_classifier parsed) tables = Some facts"
    and "list_all (fact_holds v k) facts"
  shows "graph_sound v (ps_join_graph parsed)"
proof -
  from assms(1) obtain cl constant_joins g added g' where
    cl: "classify_predicates (add_predicates predicates empty_classifier) = Some cl"
    and cj: "detect_constant_equality_joins cl tables = Some constant_joins"
    and tc: "compute_transitive_closure (seeded_graph aliases join_conditions constant_joins)
               = Some (g, added)"
    and ec: "build_equivalence_classes g = Some g'"
    and parsed: "parsed = \<lparr>ps_tables = tables, ps_aliases = aliases, ps_join_graph = g',
                            ps_classifier = cl\<rparr>"
    by (auto simp: parse_sql_build_def split: if_splits option.splits)
  have facts: "table_facts cl tables = Some facts" using assms(3) parsed by simp
  have holds: "list_all (constant_join_holds v) constant_joins"
    using detect_constant_equality_joins_hold [OF cj facts assms(4)] .
  have "graph_sound v (empty_graph\<lparr>table_aliases :=
          foldl (\<lambda>d (alias, base_name). dict_set alias base_name d) [] aliases\<rparr>)"
    by (simp add: graph_sound_def all_details_def empty_graph_def)
  then have "graph_sound v (seeded_graph aliases join_conditions constant_joins)"
    unfolding seeded_graph_def
    by (intro add_constant_joins_sound add_join_conditions_sound assms(2) holds)
  from compute_transitive_closure_sound [OF tc this] have "graph_sound v g" .
  then have "graph_sound v g'"
    using build_equivalence_classes_details [OF ec]
    by (simp add: graph_sound_def all_details_def)
  with parsed show ?thesis by simp
qed

text \<open>
  The interpretation that gives each column the constant the filter
  \<open>A.n = 'rock and roll' AND B.n = 'rock'\<close> states for it.
\<close>

definition rock_values :: "string \<times> string \<Rightarrow> string" where
  "rock_values = (\<lambda>(t, col). if t = ''A'' then ''rock and roll'' else ''rock'')"

text \<open>
  Claim C3 (a constant cut at a keyword). The lemma \<open>build_phase_sound\<close> is soundness
  relative to the facts as \<open>_extract_single_constant_value\<close> reads them, and that reading
  is not faithful to the query: the pattern of the equality takes the constant up to the
  first \<open>AND\<close> or \<open>OR\<close> that follows white space, also inside a quoted string. For the
  filter \<open>A.n = 'rock and roll' AND B.n = 'rock'\<close> the fact read for \<open>A\<close> is
  \<open>A.n = rock\<close>, the build phase stores the derived detail \<open>A.n = B.n\<close>, and the
  interpretation that gives each column the constant the query states for it satisfies
  both constant predicates of the query (there is no asserted join) and not the derived
  equality: the detail is no consequence of the asserted equalities and the constant
  facts.
\<close>

theorem derived_detail_not_a_consequence:
  "extract_single_constant_value (''A.n = '' @ sq @ ''rock and roll'' @ sq)
     = Some (ConstantValue ''A'' ''n'' ''rock'') \<and>
   extract_single_constant_value (''B.n = '' @ sq @ ''rock'' @ sq)
     = Some (ConstantValue ''B'' ''n'' ''rock'') \<and>
   map_option (\<lambda>parsed. join_details (ps_join_graph parsed))
     (parse_sql_build [''A'', ''B''] [(''A'', ''A''), (''B'', ''B'')] []
        [(''A.n = '' @ sq @ ''rock and roll'' @ sq, [''A'']),
         (''B.n = '' @ sq @ ''rock'' @ sq, [''B''])])
     = Some [(''A|||B'', [JoinDetail ''A'' ''n'' ''B'' ''n'' False])] \<and>
   rock_values (''A'', ''n'') = ''rock and roll'' \<and>
   rock_values (''B'', ''n'') = ''rock'' \<and>
   \<not> detail_holds rock_values (JoinDetail ''A'' ''n'' ''B'' ''n'' False)"
  by (intro conjI; code_simp)


end
